theory Spec2Isabelle
  imports Main "HOL-Library.Sublist" "HOL-Library.Char_ord" "HOL-Library.List_Lexorder"
    "HOL-Library.Monad_Syntax"
begin

section \<open>mcwho: who is on the Minecraft server\<close>

text \<open>
  A shallow embedding of \<^verbatim>\<open>mcwho.go\<close> (the 2012-2014 version with the gzip archives):
  the presence tables kept by \<^verbatim>\<open>main\<close>, the renderer \<^verbatim>\<open>getDisplay\<close> with
  \<^verbatim>\<open>getHowLong\<close>, the log reader \<^verbatim>\<open>getLogReader\<close> / \<^verbatim>\<open>readLog\<close> with its three
  regular expressions and \<^verbatim>\<open>parseSince\<close>, and the tailing goroutine \<^verbatim>\<open>Mcwho\<close>.
\<close>

subsection \<open>Data model\<close>

text \<open>
  A \<^verbatim>\<open>time.Time\<close> is modelled by the instant it denotes: the number of nanoseconds since
  the zero Time (January 1, year 1, 00:00:00 UTC). \<^verbatim>\<open>IsZero\<close>, \<^verbatim>\<open>After\<close> and
  \<^verbatim>\<open>Sub\<close> of the Go library only look at the instant.
\<close>

type_synonym Time = int

definition zeroTime :: Time where
  "zeroTime = 0"

definition IsZero :: "Time \<Rightarrow> bool" where
  "IsZero t = (t = 0)"

definition After :: "Time \<Rightarrow> Time \<Rightarrow> bool" where
  "After t u = (u < t)"

text \<open>Go errors are modelled by their message.\<close>

type_synonym error = string

record mcuser =
  name :: string
  since :: Time

type_synonym userList = "string \<rightharpoonup> mcuser"

subsection \<open>Durations and their display: getHowLong\<close>

text \<open>A \<^verbatim>\<open>time.Duration\<close> is an \<^verbatim>\<open>int64\<close> count of nanoseconds.\<close>

type_synonym Duration = int

definition minDuration :: Duration where
  "minDuration = - 9223372036854775808"

definition maxDuration :: Duration where
  "maxDuration = 9223372036854775807"

text \<open>\<^verbatim>\<open>t.Sub(u)\<close>: the difference of the instants, or the minimum or maximum Duration
  when the difference does not fit.\<close>

definition time_Sub :: "Time \<Rightarrow> Time \<Rightarrow> Duration" where
  "time_Sub t u =
     (if minDuration \<le> t - u \<and> t - u \<le> maxDuration then t - u
      else if t < u then minDuration
      else maxDuration)"

text \<open>Go's \<^verbatim>\<open>/\<close> and \<^verbatim>\<open>%\<close> on integers truncate toward zero; the remainder has the
  sign of the dividend.\<close>

definition goDiv :: "int \<Rightarrow> int \<Rightarrow> int" where
  "goDiv a b = sgn a * sgn b * (\<bar>a\<bar> div \<bar>b\<bar>)"

definition goMod :: "int \<Rightarrow> int \<Rightarrow> int" where
  "goMod a b = sgn a * (\<bar>a\<bar> mod \<bar>b\<bar>)"

text \<open>
  A \<^verbatim>\<open>float64\<close> is modelled by a pair \<open>(m, k)\<close> of integers that stands for the number
  \<open>m * 2 ^ k\<close>. The arithmetic is that of IEEE 754 binary64 with rounding to nearest, ties
  to even, for results in the normal range (the numbers here are zero or lie between
  \<open>2 ^ - 42\<close> and \<open>2 ^ 34\<close> in magnitude, so neither overflow nor subnormal numbers
  occur).
\<close>

type_synonym float64 = "int \<times> int"

text \<open>The number of binary digits of a positive integer.\<close>

function bitlength :: "int \<Rightarrow> nat" where
  "bitlength a = (if a \<le> 0 then 0 else Suc (bitlength (a div 2)))"
  by pat_completeness auto
termination
  by (relation "measure nat") auto

declare bitlength.simps [simp del]

text \<open>The fraction \<open>a / b\<close> times \<open>2 ^ s\<close>, as a fraction again.\<close>

definition scaleFrac :: "int \<Rightarrow> int \<Rightarrow> int \<Rightarrow> int \<times> int" where
  "scaleFrac a b s = (if 0 \<le> s then (a * 2 ^ nat s, b) else (a, b * 2 ^ nat (- s)))"

text \<open>The integer nearest to \<open>a / b\<close> for \<open>0 \<le> a\<close> and \<open>0 < b\<close>, the even one of two
  that are equally near.\<close>

definition roundHalfEven :: "int \<Rightarrow> int \<Rightarrow> int" where
  "roundHalfEven a b =
     (let f = a div b; r = a mod b
      in if 2 * r < b then f
         else if b < 2 * r then f + 1
         else if even f then f
         else f + 1)"

text \<open>For \<open>0 < a\<close> and \<open>0 < b\<close>, the exponent \<open>e\<close> with \<open>2 ^ e \<le> a / b < 2 ^ (e + 1)\<close>: the
  difference of the bit lengths or one less.\<close>

definition binExponent :: "int \<Rightarrow> int \<Rightarrow> int" where
  "binExponent a b =
     (let e = int (bitlength a) - int (bitlength b);
          (a', b') = scaleFrac a b (- e)
      in if b' \<le> a' then e else e - 1)"

text \<open>The \<^verbatim>\<open>float64\<close> nearest to the fraction \<open>a / b\<close> with \<open>0 < b\<close>: a significand of 53
  bits, rounded.\<close>

definition float64_round :: "int \<Rightarrow> int \<Rightarrow> float64" where
  "float64_round a b =
     (if a = 0 then (0, 0)
      else
        (let e = binExponent \<bar>a\<bar> b;
             (a', b') = scaleFrac \<bar>a\<bar> b (52 - e)
         in (sgn a * roundHalfEven a' b', e - 52)))"

text \<open>The conversion \<^verbatim>\<open>float64(n)\<close> of an integer, the quotient of two \<^verbatim>\<open>float64\<close> of
  which the second is positive, their sum, and the conversion \<^verbatim>\<open>int(x)\<close>, which drops
  the fraction.\<close>

definition float64_of_int :: "int \<Rightarrow> float64" where
  "float64_of_int n = float64_round n 1"

definition float64_div :: "float64 \<Rightarrow> float64 \<Rightarrow> float64" where
  "float64_div x y =
     (case scaleFrac (fst x) (fst y) (snd x - snd y) of (a, b) \<Rightarrow> float64_round a b)"

definition float64_add :: "float64 \<Rightarrow> float64 \<Rightarrow> float64" where
  "float64_add x y =
     (let k = min (snd x) (snd y);
          n = fst x * 2 ^ nat (snd x - k) + fst y * 2 ^ nat (snd y - k)
      in case scaleFrac n 1 k of (a, b) \<Rightarrow> float64_round a b)"

definition float64_to_int :: "float64 \<Rightarrow> int" where
  "float64_to_int x = (case scaleFrac (fst x) 1 (snd x) of (a, b) \<Rightarrow> goDiv a b)"

text \<open>
  \<^verbatim>\<open>dur.Hours()\<close>, \<^verbatim>\<open>dur.Minutes()\<close> and \<^verbatim>\<open>dur.Seconds()\<close> as the library computes them:
  \<^verbatim>\<open>float64(hour) + float64(nsec)/(60*60*1e9)\<close> with \<^verbatim>\<open>hour := d / Hour\<close> and
  \<^verbatim>\<open>nsec := d % Hour\<close>, and likewise for the minute and the second. The constant
  divisors are whole numbers that a \<^verbatim>\<open>float64\<close> holds exactly.
\<close>

definition Hours :: "Duration \<Rightarrow> float64" where
  "Hours d =
     float64_add (float64_of_int (goDiv d 3600000000000))
       (float64_div (float64_of_int (goMod d 3600000000000)) (float64_of_int 3600000000000))"

definition Minutes :: "Duration \<Rightarrow> float64" where
  "Minutes d =
     float64_add (float64_of_int (goDiv d 60000000000))
       (float64_div (float64_of_int (goMod d 60000000000)) (float64_of_int 60000000000))"

definition Seconds :: "Duration \<Rightarrow> float64" where
  "Seconds d =
     float64_add (float64_of_int (goDiv d 1000000000))
       (float64_div (float64_of_int (goMod d 1000000000)) (float64_of_int 1000000000))"

text \<open>\<^verbatim>\<open>int(dur.Hours())\<close>, \<^verbatim>\<open>int(dur.Minutes())\<close> and \<^verbatim>\<open>int(dur.Seconds())\<close>; an
  \<^verbatim>\<open>int\<close> has 64 bits, so each of them fits.\<close>

definition intHours :: "Duration \<Rightarrow> int" where
  "intHours d = float64_to_int (Hours d)"

definition intMinutes :: "Duration \<Rightarrow> int" where
  "intMinutes d = float64_to_int (Minutes d)"

definition intSeconds :: "Duration \<Rightarrow> int" where
  "intSeconds d = float64_to_int (Seconds d)"

text \<open>The verb \<^verbatim>\<open>%d\<close> of \<^verbatim>\<open>fmt.Sprintf\<close>: decimal digits, with a minus sign for a
  negative number.\<close>

fun showNat :: "nat \<Rightarrow> string" where
  "showNat n =
     (if n < 10 then [''0123456789'' ! n]
      else showNat (n div 10) @ [''0123456789'' ! (n mod 10)])"

declare showNat.simps [simp del]

definition showInt :: "int \<Rightarrow> string" where
  "showInt i = (if i < 0 then CHR ''-'' # showNat (nat (- i)) else showNat (nat i))"

text \<open>\<^verbatim>\<open>getHowLong(ts)\<close>, with the reading of the clock \<^verbatim>\<open>time.Now()\<close> as the first
  argument. The error it returns is always \<^verbatim>\<open>nil\<close>.\<close>

definition getHowLong :: "Time \<Rightarrow> Time \<Rightarrow> string" where
  "getHowLong now ts =
     (let dur = time_Sub now ts;
          days = goDiv (intHours dur) 24;
          hours = goMod (intHours dur) 24;
          mins = goMod (intMinutes dur) 60;
          secs = goMod (intSeconds dur) 60;
          str = [];
          str = (if days > 0 then str @ showInt days @ ''d '' else str);
          str = (if hours > 0 then str @ showInt hours @ ''h '' else str);
          str = (if mins > 0 then str @ showInt mins @ ''m'' else str);
          str = (if length str = 0 then str @ showInt secs @ ''s'' else str)
      in str)"

subsection \<open>The display string: getDisplay\<close>

text \<open>\<^verbatim>\<open>strings.Join\<close>.\<close>

fun strings_Join :: "string list \<Rightarrow> string \<Rightarrow> string" where
  "strings_Join [] sep = []"
| "strings_Join [x] sep = x"
| "strings_Join (x # y # ys) sep = x @ sep @ strings_Join (y # ys) sep"

text \<open>
  A \<^verbatim>\<open>range\<close> over a Go map visits every entry once, in an order the language leaves
  open. \<open>rangeOrder m xs\<close> says that \<open>xs\<close> is one such visit of the map \<open>m\<close>.
\<close>

definition rangeOrder :: "userList \<Rightarrow> (string \<times> mcuser) list \<Rightarrow> bool" where
  "rangeOrder m xs = (distinct (map fst xs) \<and> map_of xs = m)"

text \<open>The loop over \<^verbatim>\<open>usersOff\<close> that keeps the record with the latest \<^verbatim>\<open>since\<close>,
  starting from the zero \<^verbatim>\<open>mcuser\<close>.\<close>

definition lastSeen :: "(string \<times> mcuser) list \<Rightarrow> mcuser" where
  "lastSeen offl =
     foldl (\<lambda>lastUser (k, user). if After (since user) (since lastUser) then user else lastUser)
       \<lparr>name = [], since = zeroTime\<rparr> offl"

text \<open>The body of the loop in \<open>lastSeen\<close>, named for the proofs.\<close>

definition keepLater :: "mcuser \<Rightarrow> string \<times> mcuser \<Rightarrow> mcuser" where
  "keepLater lastUser e = (if After (since (snd e)) (since lastUser) then snd e else lastUser)"

text \<open>
  \<^verbatim>\<open>getDisplay(usersOn, usersOff)\<close>. The two maps are given as the entries in the order
  the two \<^verbatim>\<open>range\<close> loops visit them; \<open>now\<close> is the reading of the clock (the source
  reads it once for every call of \<^verbatim>\<open>getHowLong\<close>; with nobody online there is one call).
\<close>

definition getDisplay :: "Time \<Rightarrow> (string \<times> mcuser) list \<Rightarrow> (string \<times> mcuser) list \<Rightarrow> string" where
  "getDisplay now onl offl =
     (let userInfo = map (\<lambda>(k, user). name user @ '' on for '' @ getHowLong now (since user)) onl;
          count = length onl;
          hdr =
            (if count < 1 then
               (let lastUser = lastSeen offl;
                    howLong = getHowLong now (since lastUser);
                    lastUser = (if IsZero (since lastUser) then lastUser\<lparr>name := ''nobody''\<rparr> else lastUser);
                    howLong = (if IsZero (since lastUser) then ''ever'' else howLong)
                in ''No players for '' @ howLong @ '' ('' @ name lastUser @ '')'')
             else if count = 1 then ''1 player: ''
             else showInt (int count) @ '' players: '')
      in hdr @ strings_Join userInfo '', '')"

subsection \<open>The presence tables: the select loop of main\<close>

text \<open>What \<^verbatim>\<open>main\<close> receives: a user on \<^verbatim>\<open>conch\<close>, a user on \<^verbatim>\<open>disch\<close>, or an
  error on \<^verbatim>\<open>errch\<close>.\<close>

datatype event = Conch mcuser | Disch mcuser | Errch error

record tables =
  usersOn :: userList
  usersOff :: userList

definition initTables :: tables where
  "initTables = \<lparr>usersOn = Map.empty, usersOff = Map.empty\<rparr>"

text \<open>One pass through the \<^verbatim>\<open>select\<close>. \<^verbatim>\<open>log.Fatal\<close> ends the process: the result
  is \<open>Inl\<close> of the error and the tables are gone.\<close>

fun selectStep :: "tables \<Rightarrow> event \<Rightarrow> error + tables" where
  "selectStep s (Conch user) =
     Inr (s\<lparr>usersOff := (usersOff s)(name user := None),
            usersOn := (usersOn s)(name user \<mapsto> user)\<rparr>)"
| "selectStep s (Disch user) =
     Inr (s\<lparr>usersOn := (usersOn s)(name user := None),
            usersOff := (usersOff s)(name user \<mapsto> user)\<rparr>)"
| "selectStep s (Errch err) = Inl err"

text \<open>The \<^verbatim>\<open>for\<close> loop of \<^verbatim>\<open>main\<close> over the messages it receives, in order. The
  result is the tables after the last message, or the error \<^verbatim>\<open>log.Fatal\<close> exited on
  together with the tables at that moment.\<close>

fun mainLoop :: "tables \<Rightarrow> event list \<Rightarrow> tables \<times> error option" where
  "mainLoop s [] = (s, None)"
| "mainLoop s (ev # evs) =
     (case selectStep s ev of
        Inl err \<Rightarrow> (s, Some err)
      | Inr s' \<Rightarrow> mainLoop s' evs)"

definition disjointTables :: "tables \<Rightarrow> bool" where
  "disjointTables s = (dom (usersOn s) \<inter> dom (usersOff s) = {})"

subsection \<open>Paths: path.Ext and path.Join\<close>

definition gzipext :: string where
  "gzipext = ''.gz''"

text \<open>\<^verbatim>\<open>path.Ext\<close> walks back from the end of the path to the final dot of its final
  slash-separated element. \<open>extScan\<close> is that loop, on the reversed path, with the bytes
  passed so far.\<close>

fun extScan :: "string \<Rightarrow> string \<Rightarrow> string" where
  "extScan [] acc = []"
| "extScan (c # cs) acc =
     (if c = CHR ''/'' then []
      else if c = CHR ''.'' then c # acc
      else extScan cs (c # acc))"

definition path_Ext :: "string \<Rightarrow> string" where
  "path_Ext p = extScan (rev p) []"

text \<open>The slash-separated elements of a path; the first argument collects the current
  element, reversed.\<close>

fun splitSlash :: "string \<Rightarrow> string \<Rightarrow> string list" where
  "splitSlash acc [] = [rev acc]"
| "splitSlash acc (c # cs) =
     (if c = CHR ''/'' then rev acc # splitSlash [] cs else splitSlash (c # acc) cs)"

text \<open>
  \<^verbatim>\<open>path.Clean\<close>, element by element: an empty element and \<^verbatim>\<open>.\<close> are dropped,
  \<^verbatim>\<open>..\<close> removes the element before it (at the start of a rooted path it is dropped, at
  the start of a relative one it is kept), anything else is kept. \<open>st\<close> is the output so
  far, last element first.
\<close>

definition cleanStep :: "bool \<Rightarrow> string list \<Rightarrow> string \<Rightarrow> string list" where
  "cleanStep rooted st e =
     (if e = [] \<or> e = ''.'' then st
      else if e = ''..'' then
        (case st of
           [] \<Rightarrow> (if rooted then [] else [''..''])
         | prev # rest \<Rightarrow> (if prev = ''..'' then ''..'' # st else rest))
      else e # st)"

definition path_Clean :: "string \<Rightarrow> string" where
  "path_Clean p =
     (if p = [] then ''.''
      else
        (let rooted = (hd p = CHR ''/'');
             st = foldl (cleanStep rooted) [] (splitSlash [] p)
         in if rooted then CHR ''/'' # strings_Join (rev st) ''/''
            else if st = [] then ''.''
            else strings_Join (rev st) ''/''))"

text \<open>\<^verbatim>\<open>path.Join\<close> of two elements: empty elements at the front are ignored, the rest is
  joined with slashes and cleaned.\<close>

definition path_Join :: "string \<Rightarrow> string \<Rightarrow> string" where
  "path_Join a b =
     (if a = [] then (if b = [] then [] else path_Clean b)
      else path_Clean (a @ ''/'' @ b))"

text \<open>The final slash-separated element of a path, for the proofs about \<open>path_Ext\<close>.\<close>

definition lastElem :: "string \<Rightarrow> string" where
  "lastElem s = rev (takeWhile (\<lambda>c. c \<noteq> CHR ''/'') (rev s))"

subsection \<open>The three regular expressions\<close>

text \<open>
  The patterns of \<^verbatim>\<open>readLog\<close> are sequences of literal bytes, greedy repetitions of a
  character class and capture groups. The classes: \<^verbatim>\<open>\d\<close>, \<^verbatim>\<open>[0-9:]\<close>, \<^verbatim>\<open>\S\<close> and
  \<^verbatim>\<open>.\<close> (which does not match a newline). A byte of a multi-byte UTF-8 character is
  neither white space nor a newline, so matching bytes gives the captures that
  matching runes gives.
\<close>

datatype cclass = Digit | DigitColon | NotSpace | NotNewline

fun inClass :: "cclass \<Rightarrow> char \<Rightarrow> bool" where
  "inClass Digit c = (c \<in> set ''0123456789'')"
| "inClass DigitColon c = (c \<in> set ''0123456789:'')"
| "inClass NotSpace c = (c \<notin> set [CHR 0x09, CHR 0x0A, CHR 0x0C, CHR 0x0D, CHR '' ''])"
| "inClass NotNewline c = (c \<noteq> CHR 0x0A)"

datatype tok = Lit char | Star cclass | Plus cclass | GroupOpen | GroupClose

record regexp =
  anchored :: bool
  toks :: "tok list"

definition lits :: "string \<Rightarrow> tok list" where
  "lits s = map Lit s"

text \<open>\<^verbatim>\<open>(\d+-\d+-\d+)\<close>\<close>

definition datere :: regexp where
  "datere = \<lparr>anchored = False,
     toks = [GroupOpen, Plus Digit, Lit CHR ''-'', Plus Digit, Lit CHR ''-'', Plus Digit, GroupClose]\<rparr>"

text \<open>\<^verbatim>\<open>^\[([0-9:]+)\] \[.*\]: (\S+)\[.*\] logged in with entity id\<close>\<close>

definition logonre :: regexp where
  "logonre = \<lparr>anchored = True,
     toks = [Lit CHR ''['', GroupOpen, Plus DigitColon, GroupClose] @ lits ''] ['' @
            [Star NotNewline] @ lits '']: '' @ [GroupOpen, Plus NotSpace, GroupClose, Lit CHR ''['',
             Star NotNewline] @ lits ''] logged in with entity id''\<rparr>"

text \<open>\<^verbatim>\<open>^\[([0-9:]+)\] \[.*\]: (\S+) lost connection:\<close>\<close>

definition logoutre :: regexp where
  "logoutre = \<lparr>anchored = True,
     toks = [Lit CHR ''['', GroupOpen, Plus DigitColon, GroupClose] @ lits ''] ['' @
            [Star NotNewline] @ lits '']: '' @ [GroupOpen, Plus NotSpace, GroupClose] @
            lits '' lost connection:''\<rparr>"

definition push :: "char \<Rightarrow> string option \<Rightarrow> string option" where
  "push x cur = map_option (\<lambda>c. x # c) cur"

text \<open>
  Matching at the start of \<open>s\<close>, the way a backtracking matcher finds the match Go's
  \<^verbatim>\<open>regexp\<close> returns: a repetition first takes as many bytes as it can and gives one back
  each time the rest of the pattern fails. \<open>cur\<close> holds what the open group has taken so
  far (reversed), \<open>caps\<close> the closed groups (last first). The result is the text of the
  groups and what is left of \<open>s\<close> after the match.
\<close>

fun rematch :: "tok list \<Rightarrow> string \<Rightarrow> string option \<Rightarrow> string list \<Rightarrow> (string list \<times> string) option" where
  "rematch [] s cur caps = Some (rev caps, s)"
| "rematch (GroupOpen # ts) s cur caps = rematch ts s (Some []) caps"
| "rematch (GroupClose # ts) s cur caps =
     rematch ts s None ((case cur of None \<Rightarrow> [] | Some c \<Rightarrow> rev c) # caps)"
| "rematch (Lit c # ts) [] cur caps = None"
| "rematch (Lit c # ts) (x # xs) cur caps =
     (if x = c then rematch ts xs (push x cur) caps else None)"
| "rematch (Star k # ts) [] cur caps = rematch ts [] cur caps"
| "rematch (Star k # ts) (x # xs) cur caps =
     (if inClass k x then
        (case rematch (Star k # ts) xs (push x cur) caps of
           Some r \<Rightarrow> Some r
         | None \<Rightarrow> rematch ts (x # xs) cur caps)
      else rematch ts (x # xs) cur caps)"
| "rematch (Plus k # ts) [] cur caps = None"
| "rematch (Plus k # ts) (x # xs) cur caps =
     (if inClass k x then rematch (Star k # ts) xs (push x cur) caps else None)"

text \<open>A match at the start of \<open>s\<close>, as Go returns it: the text of the whole match
  followed by the texts of the groups.\<close>

definition matchAt :: "tok list \<Rightarrow> string \<Rightarrow> string list option" where
  "matchAt ts s =
     map_option (\<lambda>(caps, rest). take (length s - length rest) s # caps) (rematch ts s None [])"

text \<open>The leftmost match: the first start position at which the pattern matches.\<close>

fun research :: "tok list \<Rightarrow> string \<Rightarrow> string list option" where
  "research ts [] = matchAt ts []"
| "research ts (x # xs) =
     (case matchAt ts (x # xs) of
        Some r \<Rightarrow> Some r
      | None \<Rightarrow> research ts xs)"

text \<open>\<^verbatim>\<open>re.FindStringSubmatch(s)\<close>: \<open>None\<close> for \<^verbatim>\<open>nil\<close>.\<close>

definition FindStringSubmatch :: "regexp \<Rightarrow> string \<Rightarrow> string list option" where
  "FindStringSubmatch re s = (if anchored re then matchAt (toks re) s else research (toks re) s)"

subsection \<open>What the program sees of its host\<close>

text \<open>An open file: its bytes, and the error of \<^verbatim>\<open>logf.Stat()\<close> if that call fails.\<close>

record osfile =
  bytes :: string
  fstatErr :: "error option"

text \<open>
  The host as the program reads it through the Go library. None of these is code of the
  program, so each is a parameter:
  \<^item> \<open>watchErr p\<close>: the error of \<^verbatim>\<open>fsnotify.NewWatcher\<close> and \<^verbatim>\<open>watcher.Watch(p)\<close>, if any;
  \<^item> \<open>dirNames p\<close>: the names in directory \<open>p\<close>, or the error of \<^verbatim>\<open>ioutil.ReadDir\<close>;
  \<^item> \<open>osOpen p\<close>: \<^verbatim>\<open>os.Open(p)\<close>;
  \<^item> \<open>modDate p\<close>: \<^verbatim>\<open>os.Stat(p)\<close> and then \<^verbatim>\<open>ModTime().Format("2006-01-02")\<close>;
  \<^item> \<open>gunzip b\<close>: \<^verbatim>\<open>gzip.NewReader\<close> on a file with bytes \<open>b\<close>: the error for a bad
    header, or the text that can be read from the stream and the error that ends it
    (\<^verbatim>\<open>io.EOF\<close>, or a checksum or format error for a damaged stream);
  \<^item> \<open>today\<close>: \<^verbatim>\<open>time.Now().Format("2006-01-02")\<close>;
  \<^item> \<open>zoneName\<close>: the abbreviation returned by \<^verbatim>\<open>time.Now().Zone()\<close>;
  \<^item> \<open>zoneLen v\<close>: the library's \<^verbatim>\<open>parseTimeZone(v)\<close>, the number of leading bytes of \<open>v\<close>
    that look like a zone abbreviation, if any do;
  \<^item> \<open>zoneOffset z s\<close>: the seconds east of UTC that the local zone database gives the
    abbreviation \<open>z\<close> at the wall-clock second \<open>s\<close> (\<open>0\<close> when it does not know \<open>z\<close>);
  \<^item> \<open>localOffset s\<close>: the seconds east of UTC of the host's local time at the wall-clock
    second \<open>s\<close>, that is the offset of \<^verbatim>\<open>time.Local\<close> in force then. The program never
    asks for it; it says what local time is.
\<close>

record world =
  watchErr :: "string \<Rightarrow> error option"
  dirNames :: "string \<Rightarrow> error + string list"
  osOpen :: "string \<Rightarrow> error + osfile"
  modDate :: "string \<Rightarrow> error + string"
  gunzip :: "string \<Rightarrow> error + string \<times> error"
  today :: string
  zoneName :: string
  zoneLen :: "string \<Rightarrow> nat option"
  zoneOffset :: "string \<Rightarrow> int \<Rightarrow> int"
  localOffset :: "int \<Rightarrow> int"

subsection \<open>Parsing the time: parseSince\<close>

text \<open>
  \<^verbatim>\<open>time.Parse\<close> is library code. It is modelled for the one layout \<^verbatim>\<open>parseSince\<close> uses,
  \<^verbatim>\<open>"2006-01-02 15:04:05 MST"\<close>, following the library's \<^verbatim>\<open>format.go\<close> (as of Go 1.17
  and later) element by element; the text of the \<^verbatim>\<open>*time.ParseError\<close> is not modelled.
\<close>

definition isDigit :: "char \<Rightarrow> bool" where
  "isDigit c = (c \<in> set ''0123456789'')"

definition digitVal :: "char \<Rightarrow> int" where
  "digitVal c = int (length (takeWhile (\<lambda>d. d \<noteq> c) ''0123456789''))"

definition decimal :: "string \<Rightarrow> int" where
  "decimal ds = foldl (\<lambda>n c. n * 10 + digitVal c) 0 ds"

text \<open>\<^verbatim>\<open>getnum(s, fixed)\<close>: one or two digits; two are required when \<open>fixed\<close>.\<close>

definition getnum :: "string \<Rightarrow> bool \<Rightarrow> (int \<times> string) option" where
  "getnum s fixed =
     (case s of
        [] \<Rightarrow> None
      | a # r \<Rightarrow>
          if \<not> isDigit a then None
          else (case r of
                  [] \<Rightarrow> (if fixed then None else Some (digitVal a, r))
                | b # r' \<Rightarrow>
                    if \<not> isDigit b then (if fixed then None else Some (digitVal a, r))
                    else Some (digitVal a * 10 + digitVal b, r')))"

text \<open>\<^verbatim>\<open>skip(value, prefix)\<close> for a one-byte prefix: a byte other than a blank has to be
  there; a blank of the layout stands for any number of blanks of the value, also none
  at the end of the value.\<close>

definition skipLit :: "char \<Rightarrow> string \<Rightarrow> string option" where
  "skipLit c v = (case v of [] \<Rightarrow> None | x # r \<Rightarrow> if x = c then Some r else None)"

definition skipSpace :: "string \<Rightarrow> string option" where
  "skipSpace v =
     (if v \<noteq> [] \<and> hd v \<noteq> CHR '' '' then None else Some (dropWhile (\<lambda>c. c = CHR '' '') v))"

text \<open>The element \<^verbatim>\<open>2006\<close>: four bytes, all digits.\<close>

definition parseYear :: "string \<Rightarrow> (int \<times> string) option" where
  "parseYear v =
     (if length v < 4 \<or> \<not> isDigit (hd v) then None
      else if list_all isDigit (take 4 v) then Some (decimal (take 4 v), drop 4 v)
      else None)"

text \<open>After the seconds: a period or comma followed by digits is read as a fraction of
  a second, of which nine digits count.\<close>

definition parseFraction :: "string \<Rightarrow> int \<times> string" where
  "parseFraction v =
     (case v of
        p # d # r \<Rightarrow>
          if (p = CHR ''.'' \<or> p = CHR '','') \<and> isDigit d then
            (let ds = take 9 (d # takeWhile isDigit r)
             in (decimal ds * 10 ^ (9 - length ds), dropWhile isDigit r))
          else (0, v)
      | _ \<Rightarrow> (0, v))"

text \<open>The element \<^verbatim>\<open>MST\<close>: \<^verbatim>\<open>UTC\<close> is taken as such (no name is kept); otherwise the name is
  what \<^verbatim>\<open>parseTimeZone\<close> accepts.\<close>

definition parseZone :: "world \<Rightarrow> string \<Rightarrow> (string \<times> string) option" where
  "parseZone w v =
     (if length v \<ge> 3 \<and> take 3 v = ''UTC'' then Some ([], drop 3 v)
      else (case zoneLen w v of None \<Rightarrow> None | Some n \<Rightarrow> Some (take n v, drop n v)))"

definition isLeap :: "int \<Rightarrow> bool" where
  "isLeap y = (y mod 4 = 0 \<and> (y mod 100 \<noteq> 0 \<or> y mod 400 = 0))"

definition daysIn :: "int \<Rightarrow> int \<Rightarrow> int" where
  "daysIn m y =
     (if m = 2 then (if isLeap y then 29 else 28)
      else if m = 4 \<or> m = 6 \<or> m = 9 \<or> m = 11 then 30
      else 31)"

definition daysBefore :: "int \<Rightarrow> int" where
  "daysBefore m = [0, 31, 59, 90, 120, 151, 181, 212, 243, 273, 304, 334] ! nat (m - 1)"

text \<open>The seconds from January 1 of year 1, 00:00:00, to the given wall-clock reading
  of the Gregorian calendar (months from 1 to 12).\<close>

definition civilSeconds :: "int \<Rightarrow> int \<Rightarrow> int \<Rightarrow> int \<Rightarrow> int \<Rightarrow> int \<Rightarrow> int" where
  "civilSeconds y m d h mi s =
     (365 * (y - 1) + (y - 1) div 4 - (y - 1) div 100 + (y - 1) div 400
        + daysBefore m + (if isLeap y \<and> m \<ge> 3 then 1 else 0) + (d - 1)) * 86400
     + h * 3600 + mi * 60 + s"

text \<open>The instant of a wall-clock reading in a zone \<open>off\<close> seconds east of UTC.\<close>

definition wallClock :: "int \<Rightarrow> int \<Rightarrow> int \<Rightarrow> int \<Rightarrow> int \<Rightarrow> int \<Rightarrow> int \<Rightarrow> int \<Rightarrow> Time" where
  "wallClock y m d h mi s ns off = (civilSeconds y m d h mi s - off) * 1000000000 + ns"

definition guard :: "bool \<Rightarrow> unit option" where
  "guard b = (if b then Some () else None)"

definition parseLayout :: "world \<Rightarrow> string \<Rightarrow> Time option" where
  "parseLayout w v0 = do {
     (year, v) \<leftarrow> parseYear v0;
     v \<leftarrow> skipLit CHR ''-'' v;
     (month, v) \<leftarrow> getnum v True;
     _ \<leftarrow> guard (1 \<le> month \<and> month \<le> 12);
     v \<leftarrow> skipLit CHR ''-'' v;
     (day, v) \<leftarrow> getnum v True;
     v \<leftarrow> skipSpace v;
     (hour, v) \<leftarrow> getnum v False;
     _ \<leftarrow> guard (hour < 24);
     v \<leftarrow> skipLit CHR '':'' v;
     (mins, v) \<leftarrow> getnum v True;
     _ \<leftarrow> guard (mins < 60);
     v \<leftarrow> skipLit CHR '':'' v;
     (secs, v) \<leftarrow> getnum v True;
     _ \<leftarrow> guard (secs < 60);
     (nsec, v) \<leftarrow> Some (parseFraction v);
     v \<leftarrow> skipSpace v;
     (zone, v) \<leftarrow> parseZone w v;
     _ \<leftarrow> guard (v = []);
     _ \<leftarrow> guard (1 \<le> day \<and> day \<le> daysIn month year);
     Some (wallClock year month day hour mins secs nsec
             (if zone = [] then 0 else zoneOffset w zone (civilSeconds year month day hour mins secs)))
   }"

text \<open>\<^verbatim>\<open>time.Parse("2006-01-02 15:04:05 MST", value)\<close>: on an error the Time is the zero
  Time.\<close>

definition time_Parse :: "world \<Rightarrow> string \<Rightarrow> Time \<times> error option" where
  "time_Parse w v =
     (case parseLayout w v of
        None \<Rightarrow> (zeroTime, Some ''parsing time'')
      | Some t \<Rightarrow> (t, None))"

text \<open>\<^verbatim>\<open>parseSince(since)\<close>\<close>

definition parseSince :: "world \<Rightarrow> string \<Rightarrow> Time \<times> error option" where
  "parseSince w s = time_Parse w (s @ '' '' @ zoneName w)"

text \<open>
  What \<^verbatim>\<open>time.Parse\<close> makes of the abbreviation that \<^verbatim>\<open>parseSince\<close> appends after a blank:
  the offset it gives a wall-clock second \<open>s\<close>, or nothing when the element \<^verbatim>\<open>MST\<close> of
  the layout rejects the abbreviation or leaves bytes of it over.
\<close>

definition hostZoneOffset :: "world \<Rightarrow> int \<Rightarrow> int option" where
  "hostZoneOffset w s =
     (case parseZone w (dropWhile (\<lambda>c. c = CHR '' '') (zoneName w)) of
        None \<Rightarrow> None
      | Some (z, rest) \<Rightarrow>
          if rest = [] then Some (if z = [] then 0 else zoneOffset w z s) else None)"

subsection \<open>Reading a log: getLogReader and readLog\<close>

text \<open>What a run does to the outside: opening a file, starting to read it as a gzip
  stream, positioning a plain file at an offset, and sending on one of the channels.\<close>

datatype effect = Open string | Gunzip string | Seek string int | Send event

text \<open>A \<^verbatim>\<open>bufio.Reader\<close>: the text it will deliver and the error that ends it.\<close>

record reader =
  input :: string
  endErr :: error

definition io_EOF :: error where
  "io_EOF = ''EOF''"

text \<open>
  \<^verbatim>\<open>getLogReader(logfile, logf)\<close> with the global \<^verbatim>\<open>pos\<close> passed in and returned. The
  result of \<^verbatim>\<open>logf.Seek\<close> is ignored by the source; on a regular file it succeeds.
\<close>

definition getLogReader :: "world \<Rightarrow> string \<Rightarrow> osfile \<Rightarrow> int \<Rightarrow> (error + reader) \<times> int \<times> effect list" where
  "getLogReader w logfile logf pos =
     (if path_Ext logfile = gzipext then
        (case gunzip w (bytes logf) of
           Inl err \<Rightarrow> (Inl err, pos, [Gunzip logfile])
         | Inr (txt, e) \<Rightarrow> (Inr \<lparr>input = txt, endErr = e\<rparr>, pos, [Gunzip logfile]))
      else
        (case fstatErr logf of
           Some err \<Rightarrow> (Inl err, pos, [])
         | None \<Rightarrow>
             (let pos = (if int (length (bytes logf)) < pos then 0 else pos)
              in (Inr \<lparr>input = drop (nat pos) (bytes logf), endErr = io_EOF\<rparr>, pos,
                  [Seek logfile pos]))))"

text \<open>
  The results of \<^verbatim>\<open>rdr.ReadString('\n')\<close> until it returns an error: every line with its
  newline, and then what is left before the end (possibly nothing), which comes with
  the error and still goes through the body of the loop.
\<close>

fun readStrings :: "string \<Rightarrow> string \<Rightarrow> string list" where
  "readStrings acc [] = [rev acc]"
| "readStrings acc (c # cs) =
     (if c = CHR 0x0A then rev (c # acc) # readStrings [] cs else readStrings (c # acc) cs)"

text \<open>The body of the loop for one line: at most one user is sent. The error of
  \<^verbatim>\<open>parseSince\<close> is assigned to \<^verbatim>\<open>_\<close>.\<close>

definition lineEvents :: "world \<Rightarrow> string \<Rightarrow> string \<Rightarrow> event list" where
  "lineEvents w date line =
     (case FindStringSubmatch logonre line of
        Some matches \<Rightarrow>
          [Conch \<lparr>name = matches ! 2, since = fst (parseSince w (date @ '' '' @ matches ! 1))\<rparr>]
      | None \<Rightarrow>
          (case FindStringSubmatch logoutre line of
             Some matches \<Rightarrow>
               [Disch \<lparr>name = matches ! 2, since = fst (parseSince w (date @ '' '' @ matches ! 1))\<rparr>]
           | None \<Rightarrow> []))"

text \<open>
  The date of a log: the first group of \<^verbatim>\<open>datere\<close> in the path, else the modification
  date of the file, else today. The second component is the \<^verbatim>\<open>err\<close> left by
  \<^verbatim>\<open>os.Stat\<close>, which the source assigns to the variable that guards the loop.
\<close>

definition logDate :: "world \<Rightarrow> string \<Rightarrow> string \<times> error option" where
  "logDate w logfile =
     (case FindStringSubmatch datere logfile of
        Some matches \<Rightarrow> (matches ! 1, None)
      | None \<Rightarrow>
          (case modDate w logfile of
             Inr d \<Rightarrow> (d, None)
           | Inl err \<Rightarrow> (today w, Some err)))"

text \<open>
  \<^verbatim>\<open>readLog(logfile, conch, disch)\<close> with the global \<^verbatim>\<open>pos\<close> passed in and returned. The
  loop runs while \<^verbatim>\<open>err == nil\<close>, so not at all when \<^verbatim>\<open>os.Stat\<close> has failed; it reads
  to the end of the reader, whatever error ends it, and \<^verbatim>\<open>err\<close> is then set to
  \<^verbatim>\<open>nil\<close>. For a plain file the new \<^verbatim>\<open>pos\<close> is the position of the file after the reads.
\<close>

definition readLog :: "world \<Rightarrow> string \<Rightarrow> int \<Rightarrow> effect list \<times> error option \<times> int" where
  "readLog w logfile pos =
     (case osOpen w logfile of
        Inl err \<Rightarrow> ([Open logfile], Some err, pos)
      | Inr logf \<Rightarrow>
          (case getLogReader w logfile logf pos of
             (Inl err, pos, fx) \<Rightarrow> (Open logfile # fx, Some err, pos)
           | (Inr rdr, pos, fx) \<Rightarrow>
               (let (date, err) = logDate w logfile;
                    lines = (if err = None then readStrings [] (input rdr) else []);
                    sent = concat (map (lineEvents w date) lines);
                    pos = (if path_Ext logfile \<noteq> gzipext
                           then pos + int (length (concat lines)) else pos)
                in (Open logfile # fx @ map Send sent, None, pos))))"

subsection \<open>The tailing goroutine: Mcwho\<close>

text \<open>\<^verbatim>\<open>ioutil.ReadDir\<close> returns the entries sorted by file name.\<close>

definition ioutil_ReadDir :: "world \<Rightarrow> string \<Rightarrow> error + string list" where
  "ioutil_ReadDir w p = (case dirNames w p of Inl err \<Rightarrow> Inl err | Inr names \<Rightarrow> Inr (sort names))"

text \<open>
  \<^verbatim>\<open>setupWatcher(logPath)\<close>: \<open>Inl\<close> when \<^verbatim>\<open>log.Fatal\<close> ends the process, else the error
  it returns beside the watcher, which is always \<^verbatim>\<open>nil\<close>.
\<close>

definition setupWatcher :: "world \<Rightarrow> string \<Rightarrow> error + error option" where
  "setupWatcher w logPath =
     (case watchErr w logPath of
        Some err \<Rightarrow> Inl err
      | None \<Rightarrow> Inr None)"

text \<open>How a run of \<^verbatim>\<open>Mcwho\<close> stands at the end of what is observed: it has returned, the
  process has exited in \<^verbatim>\<open>log.Fatal\<close>, or it waits in the \<^verbatim>\<open>select\<close> on the watcher.\<close>

datatype status = Returned | Exited error | Waiting

record outcome =
  effects :: "effect list"
  status :: status
  cursor :: int

text \<open>What the watcher delivers: an event or an error.\<close>

datatype wevent = FsEvent | FsError error

text \<open>The loop over the directory entries.\<close>

fun backfill :: "world \<Rightarrow> string \<Rightarrow> string list \<Rightarrow> int \<Rightarrow> effect list \<times> error option \<times> int" where
  "backfill w logPath [] pos = ([], None, pos)"
| "backfill w logPath (file # files) pos =
     (if path_Ext file \<noteq> gzipext then backfill w logPath files pos
      else
        (case readLog w (path_Join logPath file) pos of
           (fx, Some err, pos) \<Rightarrow> (fx @ [Send (Errch err)], Some err, pos)
         | (fx, None, pos) \<Rightarrow>
             (case backfill w logPath files pos of
                (fx', r, pos) \<Rightarrow> (fx @ fx', r, pos))))"

text \<open>
  The loop on the live file. The argument lists what the watcher delivers, each with the
  host as it is when the loop comes round again; when the list is used up the run waits
  in the \<^verbatim>\<open>select\<close>. The \<^verbatim>\<open>break\<close> after an error of the watcher leaves the
  \<^verbatim>\<open>select\<close>, not the loop.
\<close>

fun liveLoop :: "world \<Rightarrow> string \<Rightarrow> (wevent \<times> world) list \<Rightarrow> int \<Rightarrow> outcome" where
  "liveLoop w logFile [] pos =
     (case readLog w logFile pos of
        (fx, Some err, pos) \<Rightarrow> \<lparr>effects = fx @ [Send (Errch err)], status = Returned, cursor = pos\<rparr>
      | (fx, None, pos) \<Rightarrow> \<lparr>effects = fx, status = Waiting, cursor = pos\<rparr>)"
| "liveLoop w logFile ((ev, w') # rest) pos =
     (case readLog w logFile pos of
        (fx, Some err, pos) \<Rightarrow> \<lparr>effects = fx @ [Send (Errch err)], status = Returned, cursor = pos\<rparr>
      | (fx, None, pos) \<Rightarrow>
          (let fx = (case ev of FsEvent \<Rightarrow> fx | FsError err \<Rightarrow> fx @ [Send (Errch err)]);
               out = liveLoop w' logFile rest pos
           in out\<lparr>effects := fx @ effects out\<rparr>))"

text \<open>\<^verbatim>\<open>Mcwho(logPath, conch, disch, errch)\<close>, with the global \<^verbatim>\<open>pos\<close> at the start. What
  it prints on standard output and the deferred \<^verbatim>\<open>close(conch)\<close> and \<^verbatim>\<open>watcher.Close()\<close>
  are not in the trace.\<close>

definition Mcwho :: "world \<Rightarrow> string \<Rightarrow> (wevent \<times> world) list \<Rightarrow> int \<Rightarrow> outcome" where
  "Mcwho w logPath steps pos =
     (case setupWatcher w (path_Join logPath ''latest.log'') of
        Inl fatal \<Rightarrow> \<lparr>effects = [], status = Exited fatal, cursor = pos\<rparr>
      | Inr (Some err) \<Rightarrow> \<lparr>effects = [Send (Errch err)], status = Returned, cursor = pos\<rparr>
      | Inr None \<Rightarrow>
          (case ioutil_ReadDir w logPath of
             Inl err \<Rightarrow> \<lparr>effects = [Send (Errch err)], status = Returned, cursor = pos\<rparr>
           | Inr files \<Rightarrow>
               (case backfill w logPath files pos of
                  (fx, Some err, pos) \<Rightarrow> \<lparr>effects = fx, status = Returned, cursor = pos\<rparr>
                | (fx, None, pos) \<Rightarrow>
                    (let out = liveLoop w (path_Join logPath ''latest.log'') steps pos
                     in out\<lparr>effects := fx @ effects out\<rparr>))))"

text \<open>Reading a trace: the paths opened, the paths read as gzip streams, the plain
  files positioned, and the errors sent on \<^verbatim>\<open>errch\<close>.\<close>

fun opened :: "effect list \<Rightarrow> string list" where
  "opened [] = []"
| "opened (Open p # fx) = p # opened fx"
| "opened (e # fx) = opened fx"

fun gunzipped :: "effect list \<Rightarrow> string list" where
  "gunzipped [] = []"
| "gunzipped (Gunzip p # fx) = p # gunzipped fx"
| "gunzipped (e # fx) = gunzipped fx"

fun positioned :: "effect list \<Rightarrow> (string \<times> int) list" where
  "positioned [] = []"
| "positioned (Seek p n # fx) = (p, n) # positioned fx"
| "positioned (e # fx) = positioned fx"

fun errorsSent :: "effect list \<Rightarrow> error list" where
  "errorsSent [] = []"
| "errorsSent (Send (Errch err) # fx) = err # errorsSent fx"
| "errorsSent (e # fx) = errorsSent fx"

fun usersSent :: "effect list \<Rightarrow> event list" where
  "usersSent [] = []"
| "usersSent (Send (Errch err) # fx) = usersSent fx"
| "usersSent (Send ev # fx) = ev # usersSent fx"
| "usersSent (e # fx) = usersSent fx"

subsection \<open>Notions for the claims about the archives\<close>

text \<open>A directory entry the loop of \<^verbatim>\<open>Mcwho\<close> reads: its extension is \<^verbatim>\<open>.gz\<close>. An archive
  is readable when it opens and its gzip header is good. \<open>archives\<close> are the paths of
  the entries read, in the order of the listing.\<close>

definition isArchive :: "string \<Rightarrow> bool" where
  "isArchive f = (path_Ext f = gzipext)"

definition archiveOk :: "world \<Rightarrow> string \<Rightarrow> bool" where
  "archiveOk w p =
     (case osOpen w p of
        Inl err \<Rightarrow> False
      | Inr logf \<Rightarrow> (case gunzip w (bytes logf) of Inl err \<Rightarrow> False | Inr r \<Rightarrow> True))"

definition archives :: "string \<Rightarrow> string list \<Rightarrow> string list" where
  "archives logPath files = map (path_Join logPath) (filter isArchive files)"

text \<open>The elements of a list up to and including the first one that fails a test: what a
  loop gets to when it returns at the first failure.\<close>

fun uptoFirstFail :: "('a \<Rightarrow> bool) \<Rightarrow> 'a list \<Rightarrow> 'a list" where
  "uptoFirstFail ok [] = []"
| "uptoFirstFail ok (x # xs) = (if ok x then x # uptoFirstFail ok xs else [x])"




subsection \<open>Example hosts and lines\<close>

text \<open>A host in the zone MST, seven hours west of UTC, with no files.\<close>

definition hostMST :: world where
  "hostMST = \<lparr>watchErr = (\<lambda>p. None), dirNames = (\<lambda>p. Inr []),
     osOpen = (\<lambda>p. Inl ''open: no such file or directory''),
     modDate = (\<lambda>p. Inl ''stat: no such file or directory''),
     gunzip = (\<lambda>b. Inl ''gzip: invalid header''),
     today = ''2014-03-02'', zoneName = ''MST'',
     zoneLen = (\<lambda>v. if take 3 v = ''MST'' then Some 3 else None),
     zoneOffset = (\<lambda>z s. - 25200),
     localOffset = (\<lambda>s. - 25200)\<rparr>"

definition steveLogin :: string where
  "steveLogin = ''[12:01:15] [Server thread/INFO]: Steve[/127.0.0.1:5000] logged in with entity id 123''"


text \<open>A host whose abbreviation, a numeric one, is not accepted as a zone.\<close>

definition hostNumericZone :: world where
  "hostNumericZone = hostMST\<lparr>zoneName := ''+0330'', zoneLen := (\<lambda>v. None),
     zoneOffset := (\<lambda>z s. 12600), localOffset := (\<lambda>s. 12600)\<rparr>"

text \<open>A live log of two lines: a login whose hour is 25, then a logout.\<close>

definition twoLines :: string where
  "twoLines =
     ''[25:01:15] [Server thread/INFO]: Steve[/127.0.0.1:5000] logged in with entity id 123'' @ [CHR 0x0A] @
     ''[12:05:00] [Server thread/INFO]: Alex lost connection: Disconnected'' @ [CHR 0x0A]"

definition hostTwoLines :: world where
  "hostTwoLines = hostMST\<lparr>osOpen := (\<lambda>p. Inr \<lparr>bytes = twoLines, fstatErr = None\<rparr>),
     modDate := (\<lambda>p. Inr ''2014-03-02'')\<rparr>"


definition olderLogin :: string where
  "olderLogin = ''[09:00:00] [Server thread/INFO]: Steve[/127.0.0.1:5000] logged in with entity id 7'' @ [CHR 0x0A]"




text \<open>A host on which the watch cannot be set up.\<close>

definition hostNoWatch :: world where
  "hostNoWatch = hostMST\<lparr>watchErr := (\<lambda>p. Some ''no such file or directory'')\<rparr>"

text \<open>One archive whose gzip stream ends in a checksum error after its one line.\<close>

definition hostDamagedArchive :: world where
  "hostDamagedArchive = hostMST\<lparr>
     dirNames := (\<lambda>p. Inr [''2014-01-01-1.log.gz'']),
     osOpen := (\<lambda>p. Inr \<lparr>bytes = p, fstatErr = None\<rparr>),
     gunzip := (\<lambda>b. Inr (olderLogin, ''gzip: invalid checksum'')),
     modDate := (\<lambda>p. Inr ''2016-01-01'')\<rparr>"



section \<open>Properties\<close>

subsection \<open>The presence tables\<close>

lemma selectStep_disjoint:
  "disjointTables s \<Longrightarrow> selectStep s ev = Inr s' \<Longrightarrow> disjointTables s'"
  by (cases ev) (auto simp: disjointTables_def disjoint_iff domIff split: if_splits)

lemma mainLoop_disjoint:
  "disjointTables s \<Longrightarrow> disjointTables (fst (mainLoop s evs))"
proof (induction evs arbitrary: s)
  case Nil
  then show ?case by simp
next
  case (Cons ev evs)
  show ?case
  proof (cases "selectStep s ev")
    case (Inl err)
    with Cons.prems show ?thesis by simp
  next
    case (Inr s')
    with Cons.prems have "disjointTables s'"
      by (simp add: selectStep_disjoint)
    with Cons.IH Inr show ?thesis by simp
  qed
qed

lemma initTables_disjoint: "disjointTables initTables"
  by (simp add: disjointTables_def initTables_def)

text \<open>
  C1. Starting from the two empty tables, after any finite sequence of messages no
  user name is a key of both \<open>usersOn\<close> and \<open>usersOff\<close>.
\<close>

theorem C1_never_in_both_tables:
  "dom (usersOn (fst (mainLoop initTables evs))) \<inter>
   dom (usersOff (fst (mainLoop initTables evs))) = {}"
  using mainLoop_disjoint [OF initTables_disjoint, of evs]
  by (simp add: disjointTables_def)

theorem C1_never_in_both_tables_witness:
  "dom (usersOn (fst (mainLoop initTables
      [Conch \<lparr>name = ''a'', since = 5\<rparr>, Disch \<lparr>name = ''a'', since = 7\<rparr>,
       Conch \<lparr>name = ''b'', since = 8\<rparr>]))) \<inter>
   dom (usersOff (fst (mainLoop initTables
      [Conch \<lparr>name = ''a'', since = 5\<rparr>, Disch \<lparr>name = ''a'', since = 7\<rparr>,
       Conch \<lparr>name = ''b'', since = 8\<rparr>]))) = {}
   \<and> usersOn (fst (mainLoop initTables
      [Conch \<lparr>name = ''a'', since = 5\<rparr>, Disch \<lparr>name = ''a'', since = 7\<rparr>,
       Conch \<lparr>name = ''b'', since = 8\<rparr>])) ''b'' = Some \<lparr>name = ''b'', since = 8\<rparr>
   \<and> usersOff (fst (mainLoop initTables
      [Conch \<lparr>name = ''a'', since = 5\<rparr>, Disch \<lparr>name = ''a'', since = 7\<rparr>,
       Conch \<lparr>name = ''b'', since = 8\<rparr>])) ''a'' = Some \<lparr>name = ''a'', since = 7\<rparr>"
  using C1_never_in_both_tables
    [of "[Conch \<lparr>name = ''a'', since = 5\<rparr>, Disch \<lparr>name = ''a'', since = 7\<rparr>,
          Conch \<lparr>name = ''b'', since = 8\<rparr>]"]
  by (simp add: initTables_def)

text \<open>
  C9. From any tables, two logins of the same user \<open>u\<close> at \<open>t1\<close> and then \<open>t2\<close> leave
  \<open>usersOn\<close> with the one entry for \<open>u\<close>, whose \<open>since\<close> is \<open>t2\<close>: the key set is the old
  one with \<open>u\<close> added, every other key keeps its record, and the result is the same as
  after the second login alone.
\<close>

theorem C9_second_login_overwrites:
  "mainLoop s [Conch \<lparr>name = u, since = t1\<rparr>, Conch \<lparr>name = u, since = t2\<rparr>] = (s', r) \<Longrightarrow>
     r = None
   \<and> usersOn s' u = Some \<lparr>name = u, since = t2\<rparr>
   \<and> dom (usersOn s') = insert u (dom (usersOn s))
   \<and> (\<forall>k. k \<noteq> u \<longrightarrow> usersOn s' k = usersOn s k)
   \<and> usersOff s' u = None
   \<and> (s', r) = mainLoop s [Conch \<lparr>name = u, since = t2\<rparr>]"
  by auto

theorem C9_second_login_overwrites_witness:
  "mainLoop initTables [Conch \<lparr>name = ''Steve'', since = 10\<rparr>, Conch \<lparr>name = ''Steve'', since = 20\<rparr>]
     = (\<lparr>usersOn = [''Steve'' \<mapsto> \<lparr>name = ''Steve'', since = 20\<rparr>], usersOff = Map.empty\<rparr>, None)
   \<and> usersOn \<lparr>usersOn = [''Steve'' \<mapsto> \<lparr>name = ''Steve'', since = 20\<rparr>], usersOff = Map.empty\<rparr> ''Steve''
     = Some \<lparr>name = ''Steve'', since = 20\<rparr>
   \<and> dom (usersOn \<lparr>usersOn = [''Steve'' \<mapsto> \<lparr>name = ''Steve'', since = 20\<rparr>], usersOff = Map.empty\<rparr>)
     = {''Steve''}"
proof -
  have run: "mainLoop initTables
        [Conch \<lparr>name = ''Steve'', since = 10\<rparr>, Conch \<lparr>name = ''Steve'', since = 20\<rparr>]
     = (\<lparr>usersOn = [''Steve'' \<mapsto> \<lparr>name = ''Steve'', since = 20\<rparr>], usersOff = Map.empty\<rparr>, None)"
    by (simp add: initTables_def)
  from C9_second_login_overwrites [OF run] run show ?thesis
    by (simp add: initTables_def)
qed


subsection \<open>Durations\<close>

lemma getHowLong_dur:
  "time_Sub now ts = time_Sub now' ts' \<Longrightarrow> getHowLong now ts = getHowLong now' ts'"
  by (simp add: getHowLong_def)

lemma time_Sub_small:
  "minDuration \<le> d \<Longrightarrow> d \<le> maxDuration \<Longrightarrow> time_Sub (t + d) t = time_Sub d 0"
  by (simp add: time_Sub_def)

lemma getHowLong_elapsed:
  "minDuration \<le> d \<Longrightarrow> d \<le> maxDuration \<Longrightarrow> getHowLong (t + d) t = getHowLong d 0"
  by (rule getHowLong_dur) (rule time_Sub_small)

lemma showNat_small: "n < 10 \<Longrightarrow> showNat n = [''0123456789'' ! n]"
  by (subst showNat.simps) simp

lemma showNat_big:
  "\<not> n < 10 \<Longrightarrow> showNat n = showNat (n div 10) @ [''0123456789'' ! (n mod 10)]"
  by (subst showNat.simps) simp

text \<open>
  The rounding of \<^verbatim>\<open>float64\<close> shows in the result: 763 nanoseconds before 100000 days
  are over, \<^verbatim>\<open>dur.Hours()\<close> is 2400000 and \<^verbatim>\<open>dur.Minutes()\<close> is 144000000, and the
  result reads 100000 days.
\<close>

lemma getHowLong_float64_rounding:
  "getHowLong (t + 8639999999999999237) t = ''100000d ''"
proof -
  have h: "intHours 8639999999999999237 = 2400000"
    by code_simp
  have m: "intMinutes 8639999999999999237 = 144000000"
    by code_simp
  have d: "time_Sub 8639999999999999237 0 = 8639999999999999237"
    by (simp add: time_Sub_def minDuration_def maxDuration_def)
  have s: "showInt 100000 = ''100000''"
    by (simp add: showInt_def showNat_small showNat_big)
  have "getHowLong 8639999999999999237 0 = showInt 100000 @ ''d ''"
    using h m d unfolding getHowLong_def Let_def
    by (simp add: goDiv_def goMod_def)
  then have "getHowLong 8639999999999999237 0 = ''100000d ''"
    by (simp add: s)
  then show ?thesis
    using getHowLong_elapsed [of 8639999999999999237 t]
    by (simp add: minDuration_def maxDuration_def)
qed

text \<open>The four examples of the specification: 45s, 125s, 2h5m and 1d0h3m.\<close>

lemma getHowLong_45s: "getHowLong (t + 45000000000) t = ''45s''"
proof -
  have "getHowLong 45000000000 0 = ''45s''" by code_simp
  then show ?thesis
    using getHowLong_elapsed [of 45000000000 t] by (simp add: minDuration_def maxDuration_def)
qed

lemma getHowLong_125s: "getHowLong (t + 125000000000) t = ''2m''"
proof -
  have "getHowLong 125000000000 0 = ''2m''" by code_simp
  then show ?thesis
    using getHowLong_elapsed [of 125000000000 t] by (simp add: minDuration_def maxDuration_def)
qed

lemma getHowLong_2h5m: "getHowLong (t + 7500000000000) t = ''2h 5m''"
proof -
  have "getHowLong 7500000000000 0 = ''2h 5m''" by code_simp
  then show ?thesis
    using getHowLong_elapsed [of 7500000000000 t] by (simp add: minDuration_def maxDuration_def)
qed

lemma getHowLong_1d0h3m: "getHowLong (t + 86580000000000) t = ''1d 3m''"
proof -
  have "getHowLong 86580000000000 0 = ''1d 3m''" by code_simp
  then show ?thesis
    using getHowLong_elapsed [of 86580000000000 t] by (simp add: minDuration_def maxDuration_def)
qed

lemma getHowLong_2d3h: "getHowLong (t + 183600000000000) t = ''2d 3h ''"
proof -
  have "getHowLong 183600000000000 0 = ''2d 3h ''" by code_simp
  then show ?thesis
    using getHowLong_elapsed [of 183600000000000 t] by (simp add: minDuration_def maxDuration_def)
qed

text \<open>
  C6. \<^verbatim>\<open>getHowLong\<close> writes the days as \<^verbatim>\<open>"%dd "\<close> and the hours as \<^verbatim>\<open>"%dh "\<close>, so a
  duration with no minutes ends in a blank: one hour after \<open>t\<close> the result is
  \<^verbatim>\<open>"1h "\<close>, not \<^verbatim>\<open>"1h"\<close>.
\<close>

theorem C6_one_hour_trailing_blank: "getHowLong (t + 3600000000000) t = ''1h ''"
proof -
  have "getHowLong 3600000000000 0 = ''1h ''" by code_simp
  then show ?thesis
    using getHowLong_elapsed [of 3600000000000 t] by (simp add: minDuration_def maxDuration_def)
qed

subsection \<open>The display with nobody online\<close>

lemma lastSeen_keepLater: "lastSeen offl = foldl keepLater \<lparr>name = [], since = zeroTime\<rparr> offl"
  unfolding lastSeen_def
  by (rule arg_cong [where f = "\<lambda>f. foldl f _ offl"]) (auto simp: keepLater_def fun_eq_iff)

lemma foldl_keepLater_ge: "since acc \<le> since (foldl keepLater acc xs)"
proof (induction xs arbitrary: acc)
  case Nil
  show ?case by simp
next
  case (Cons e xs)
  have "since acc \<le> since (keepLater acc e)"
    by (simp add: keepLater_def After_def)
  also have "\<dots> \<le> since (foldl keepLater (keepLater acc e) xs)"
    by (rule Cons.IH)
  finally show ?case by simp
qed

lemma foldl_keepLater_max: "u \<in> snd ` set xs \<Longrightarrow> since u \<le> since (foldl keepLater acc xs)"
proof (induction xs arbitrary: acc)
  case Nil
  then show ?case by simp
next
  case (Cons e xs)
  show ?case
  proof (cases "u = snd e")
    case True
    have "since u \<le> since (keepLater acc e)"
      using True by (simp add: keepLater_def After_def)
    also have "\<dots> \<le> since (foldl keepLater (keepLater acc e) xs)"
      by (rule foldl_keepLater_ge)
    finally show ?thesis by simp
  next
    case False
    with Cons.prems have "u \<in> snd ` set xs" by auto
    then show ?thesis using Cons.IH by simp
  qed
qed

lemma foldl_keepLater_mem: "foldl keepLater acc xs = acc \<or> foldl keepLater acc xs \<in> snd ` set xs"
proof (induction xs arbitrary: acc)
  case Nil
  show ?case by simp
next
  case (Cons e xs)
  from Cons.IH [of "keepLater acc e"] show ?case
    by (auto simp: keepLater_def split: if_splits)
qed

lemma foldl_keepLater_none:
  "(\<And>u. u \<in> snd ` set xs \<Longrightarrow> \<not> After (since u) (since acc)) \<Longrightarrow> foldl keepLater acc xs = acc"
proof (induction xs arbitrary: acc)
  case Nil
  show ?case by simp
next
  case (Cons e xs)
  have "keepLater acc e = acc"
    using Cons.prems [of "snd e"] by (simp add: keepLater_def)
  then show ?case using Cons by simp
qed

lemma getDisplay_nobody_online:
  "getDisplay now [] offl =
     (if IsZero (since (lastSeen offl)) then ''No players for ever (nobody)''
      else ''No players for '' @ getHowLong now (since (lastSeen offl)) @ '' ('' @ name (lastSeen offl) @ '')'')"
  by (simp add: getDisplay_def Let_def)

lemma rangeOrder_ran: "rangeOrder m xs \<Longrightarrow> ran m = snd ` set xs"
  by (simp add: rangeOrder_def) (metis ran_distinct)

text \<open>
  C7 as stated fails: a record whose \<open>since\<close> is the zero Time (what \<^verbatim>\<open>readLog\<close> sends
  when the time of a matching line does not parse) never replaces the zero \<^verbatim>\<open>lastUser\<close>,
  so an offline table holding only such a record is displayed like an empty one.
\<close>

theorem C7_zero_since_counterexample:
  "getDisplay 63500000000000000000 [] [(''a'', \<lparr>name = ''a'', since = 0\<rparr>)]
     = ''No players for ever (nobody)''"
  by (simp add: getDisplay_nobody_online lastSeen_def IsZero_def After_def zeroTime_def)

text \<open>
  C7, amended. With nobody online, for every order in which \<^verbatim>\<open>range\<close> visits the offline
  table: if some offline record has a \<open>since\<close> after the zero Time, the result is
  \<^verbatim>\<open>"No players for <duration> (<name>)"\<close> for an offline record with the maximum
  \<open>since\<close>, the duration being \<open>getHowLong\<close> of that \<open>since\<close>; if no offline record has a
  \<open>since\<close> after the zero Time (in particular when the table is empty), the result is
  exactly \<^verbatim>\<open>"No players for ever (nobody)"\<close>.
\<close>

theorem C7_no_players_header:
  assumes "rangeOrder offTable offl"
  shows "((\<exists>u \<in> ran offTable. After (since u) zeroTime) \<longrightarrow>
           (\<exists>m \<in> ran offTable. (\<forall>u \<in> ran offTable. since u \<le> since m) \<and>
              getDisplay now [] offl =
                ''No players for '' @ getHowLong now (since m) @ '' ('' @ name m @ '')''))
       \<and> ((\<forall>u \<in> ran offTable. \<not> After (since u) zeroTime) \<longrightarrow>
           getDisplay now [] offl = ''No players for ever (nobody)'')"
proof -
  from assms have ran: "ran offTable = snd ` set offl"
    by (rule rangeOrder_ran)
  let ?z = "\<lparr>name = [], since = zeroTime\<rparr>"
  let ?m = "lastSeen offl"
  have first: "\<exists>m \<in> ran offTable. (\<forall>u \<in> ran offTable. since u \<le> since m) \<and>
              getDisplay now [] offl =
                ''No players for '' @ getHowLong now (since m) @ '' ('' @ name m @ '')''"
    if "\<exists>u \<in> ran offTable. After (since u) zeroTime"
  proof -
    from that obtain u where u: "u \<in> snd ` set offl" "After (since u) zeroTime"
      using ran by auto
    have "since u \<le> since ?m"
      using foldl_keepLater_max [OF u(1)] by (simp add: lastSeen_keepLater)
    with u(2) have pos: "0 < since ?m"
      by (simp add: After_def zeroTime_def)
    then have "?m \<noteq> ?z" by (auto simp: zeroTime_def)
    with foldl_keepLater_mem [of ?z offl] have mem: "?m \<in> ran offTable"
      by (simp add: lastSeen_keepLater ran)
    have max: "\<forall>u \<in> ran offTable. since u \<le> since ?m"
      using foldl_keepLater_max by (simp add: lastSeen_keepLater ran)
    from pos have "getDisplay now [] offl =
        ''No players for '' @ getHowLong now (since ?m) @ '' ('' @ name ?m @ '')''"
      by (simp add: getDisplay_nobody_online IsZero_def)
    with mem max show ?thesis by blast
  qed
  have second: "getDisplay now [] offl = ''No players for ever (nobody)''"
    if "\<forall>u \<in> ran offTable. \<not> After (since u) zeroTime"
  proof -
    have "foldl keepLater ?z offl = ?z"
      using that by (intro foldl_keepLater_none) (auto simp: ran)
    then show ?thesis
      by (simp add: getDisplay_nobody_online lastSeen_keepLater IsZero_def zeroTime_def)
  qed
  from first second show ?thesis by blast
qed

theorem C7_no_players_header_witness:
  "rangeOrder [''a'' \<mapsto> \<lparr>name = ''a'', since = 63499999000000000000\<rparr>,
               ''b'' \<mapsto> \<lparr>name = ''b'', since = 63499999940000000000\<rparr>]
     [(''b'', \<lparr>name = ''b'', since = 63499999940000000000\<rparr>),
      (''a'', \<lparr>name = ''a'', since = 63499999000000000000\<rparr>)]
   \<and> getDisplay 63500000000000000000 []
     [(''b'', \<lparr>name = ''b'', since = 63499999940000000000\<rparr>),
      (''a'', \<lparr>name = ''a'', since = 63499999000000000000\<rparr>)] = ''No players for 1m (b)''
   \<and> getDisplay 63500000000000000000 [] [] = ''No players for ever (nobody)''"
proof -
  let ?a = "\<lparr>name = ''a'', since = 63499999000000000000\<rparr>"
  let ?b = "\<lparr>name = ''b'', since = 63499999940000000000\<rparr>"
  have r: "rangeOrder [''a'' \<mapsto> ?a, ''b'' \<mapsto> ?b] [(''b'', ?b), (''a'', ?a)]"
    by (auto simp: rangeOrder_def fun_eq_iff)
  have ran: "ran [''a'' \<mapsto> ?a, ''b'' \<mapsto> ?b] = {?a, ?b}"
    using rangeOrder_ran [OF r] by auto
  have h: "getHowLong 63500000000000000000 63499999940000000000 = ''1m''"
    by code_simp
  from C7_no_players_header [OF r, of 63500000000000000000] ran
  have "\<exists>m \<in> {?a, ?b}. (\<forall>u \<in> {?a, ?b}. since u \<le> since m) \<and>
      getDisplay 63500000000000000000 [] [(''b'', ?b), (''a'', ?a)] =
      ''No players for '' @ getHowLong 63500000000000000000 (since m) @ '' ('' @ name m @ '')''"
    by (simp add: After_def zeroTime_def)
  then have "getDisplay 63500000000000000000 [] [(''b'', ?b), (''a'', ?a)] =
      ''No players for '' @ getHowLong 63500000000000000000 (since ?b) @ '' ('' @ name ?b @ '')''"
    by auto
  moreover have e: "rangeOrder Map.empty []"
    by (simp add: rangeOrder_def)
  have "getDisplay 63500000000000000000 [] [] = ''No players for ever (nobody)''"
    using C7_no_players_header [OF e, of 63500000000000000000] by simp
  ultimately show ?thesis using r h by simp
qed

subsection \<open>The cursor of the plain file\<close>

lemma positioned_Send [simp]: "positioned (map Send evs) = []"
  by (induction evs) simp_all

text \<open>
  C8. For a plain file (its extension is not \<^verbatim>\<open>.gz\<close>) whose \<^verbatim>\<open>Stat\<close> succeeds: when the
  stored offset \<open>pos\<close> exceeds the size of the file, \<open>pos\<close> is reset to 0 and the reader
  delivers the file from its first byte; when the size is at least \<open>pos\<close>, \<open>pos\<close> is
  kept and the reader delivers the file from byte \<open>pos\<close>. In \<^verbatim>\<open>readLog\<close> that is the one
  positioning of the file.
\<close>

theorem C8_truncated_file_read_from_start:
  assumes "path_Ext logfile \<noteq> gzipext" and "fstatErr logf = None"
  shows "(int (length (bytes logf)) < pos \<longrightarrow>
            getLogReader w logfile logf pos =
              (Inr \<lparr>input = bytes logf, endErr = io_EOF\<rparr>, 0, [Seek logfile 0]))
       \<and> (pos \<le> int (length (bytes logf)) \<longrightarrow>
            getLogReader w logfile logf pos =
              (Inr \<lparr>input = drop (nat pos) (bytes logf), endErr = io_EOF\<rparr>, pos, [Seek logfile pos]))
       \<and> (osOpen w logfile = Inr logf \<longrightarrow>
            positioned (fst (readLog w logfile pos)) =
              [(logfile, if int (length (bytes logf)) < pos then 0 else pos)])"
  using assms by (auto simp: getLogReader_def readLog_def Let_def split: prod.splits)

theorem C8_truncated_file_read_from_start_witness:
  "path_Ext ''logs/latest.log'' \<noteq> gzipext
   \<and> getLogReader hostMST ''logs/latest.log'' \<lparr>bytes = replicate 200 CHR ''x'', fstatErr = None\<rparr> 500 =
       (Inr \<lparr>input = replicate 200 CHR ''x'', endErr = io_EOF\<rparr>, 0, [Seek ''logs/latest.log'' 0])
   \<and> getLogReader hostMST ''logs/latest.log'' \<lparr>bytes = replicate 200 CHR ''x'', fstatErr = None\<rparr> 150 =
       (Inr \<lparr>input = replicate 50 CHR ''x'', endErr = io_EOF\<rparr>, 150, [Seek ''logs/latest.log'' 150])"
proof -
  have e: "path_Ext ''logs/latest.log'' \<noteq> gzipext"
    by (simp add: path_Ext_def gzipext_def)
  from C8_truncated_file_read_from_start [OF e, of "\<lparr>bytes = replicate 200 CHR ''x'', fstatErr = None\<rparr>" 500 hostMST]
       C8_truncated_file_read_from_start [OF e, of "\<lparr>bytes = replicate 200 CHR ''x'', fstatErr = None\<rparr>" 150 hostMST]
       e
  show ?thesis by simp
qed

subsection \<open>One login line\<close>

lemma steve_matches:
  "FindStringSubmatch logonre steveLogin =
     Some [''[12:01:15] [Server thread/INFO]: Steve[/127.0.0.1:5000] logged in with entity id'', ''12:01:15'', ''Steve'']"
  by code_simp

lemma steve_matches_nl:
  "FindStringSubmatch logonre (steveLogin @ [CHR 0x0A]) =
     Some [''[12:01:15] [Server thread/INFO]: Steve[/127.0.0.1:5000] logged in with entity id'', ''12:01:15'', ''Steve'']"
  by code_simp

lemma skipSpace_blank:
  "skipSpace (CHR '' '' # v) = Some (dropWhile (\<lambda>c. c = CHR '' '') v)"
  by (simp add: skipSpace_def)

lemma parseFraction_blank: "parseFraction (CHR '' '' # v) = (0, CHR '' '' # v)"
  by (cases v) (simp_all add: parseFraction_def)

lemma parseSince_steve:
  "parseSince w ''2014-03-02 12:01:15'' =
     (case hostZoneOffset w (civilSeconds 2014 3 2 12 1 15) of
        Some off \<Rightarrow> (wallClock 2014 3 2 12 1 15 0 off, None)
      | None \<Rightarrow> (zeroTime, Some ''parsing time''))"
  by (simp add: parseSince_def time_Parse_def parseLayout_def parseYear_def isDigit_def decimal_def
      digitVal_def skipLit_def getnum_def guard_def skipSpace_blank parseFraction_blank daysIn_def
      isLeap_def hostZoneOffset_def split: option.splits prod.splits)

lemma steve_events:
  "lineEvents w ''2014-03-02'' steveLogin =
     [Conch \<lparr>name = ''Steve'', since = fst (parseSince w ''2014-03-02 12:01:15'')\<rparr>]"
  "lineEvents w ''2014-03-02'' (steveLogin @ [CHR 0x0A]) =
     [Conch \<lparr>name = ''Steve'', since = fst (parseSince w ''2014-03-02 12:01:15'')\<rparr>]"
  using steve_matches steve_matches_nl by (simp_all add: lineEvents_def)


text \<open>On a host whose abbreviation is rejected, the login carries the zero Time.\<close>

lemma steve_rejected_zone:
  "lineEvents hostNumericZone ''2014-03-02''
     ''[12:01:15] [Server thread/INFO]: Steve[/127.0.0.1:5000] logged in with entity id 123''
     = [Conch \<lparr>name = ''Steve'', since = 0\<rparr>]"
proof -
  have z: "hostZoneOffset hostNumericZone (civilSeconds 2014 3 2 12 1 15) = None"
    by (simp add: hostZoneOffset_def parseZone_def hostNumericZone_def hostMST_def)
  show ?thesis
    using steve_events(1) [of hostNumericZone]
    by (simp add: parseSince_steve z zeroTime_def steveLogin_def)
qed



subsection \<open>A time that does not parse\<close>

lemma usersSent_append: "usersSent (a @ b) = usersSent a @ usersSent b"
  by (induction a rule: usersSent.induct) simp_all

lemma isUser_lineEvents: "ev \<in> set (lineEvents w date line) \<Longrightarrow> (\<exists>u. ev = Conch u \<or> ev = Disch u)"
  by (auto simp: lineEvents_def split: option.splits)

lemma usersSent_Send: "(\<And>ev. ev \<in> set evs \<Longrightarrow> (\<exists>u. ev = Conch u \<or> ev = Disch u)) \<Longrightarrow> usersSent (map Send evs) = evs"
proof (induction evs)
  case Nil
  show ?case by simp
next
  case (Cons ev evs)
  from Cons.prems [of ev] obtain u where "ev = Conch u \<or> ev = Disch u" by auto
  moreover have "usersSent (map Send evs) = evs"
    using Cons by simp
  ultimately show ?case by auto
qed

lemma usersSent_lines: "usersSent (map Send (concat (map (lineEvents w date) ls))) = concat (map (lineEvents w date) ls)"
  by (rule usersSent_Send) (auto dest: isUser_lineEvents)

lemma getLogReader_effects:
  "getLogReader w logfile logf pos = (r, pos', fx) \<Longrightarrow>
     fx = [] \<or> fx = [Gunzip logfile] \<or> fx = [Seek logfile pos']"
  by (auto simp: getLogReader_def Let_def split: if_splits sum.splits option.splits prod.splits)

lemma time_Parse_error: "snd (time_Parse w v) \<noteq> None \<Longrightarrow> fst (time_Parse w v) = zeroTime"
  by (simp add: time_Parse_def split: option.splits)

lemma parseSince_error: "snd (parseSince w s) \<noteq> None \<Longrightarrow> fst (parseSince w s) = zeroTime"
  by (simp add: parseSince_def time_Parse_error)

text \<open>
  C2, amended. When \<^verbatim>\<open>readLog\<close> has opened a log and resolved its date, it returns no
  error and sends the events of every line it reads, in order, whatever \<^verbatim>\<open>parseSince\<close>
  returns; and a line that matches the login (or, failing that, the logout) pattern
  and whose date and time do not parse is not dropped: it gives one event, with the
  captured user name and the zero Time as its instant.
\<close>

theorem C2_unparsed_time_sent_as_zero:
  assumes "osOpen w logfile = Inr logf"
    and "getLogReader w logfile logf pos = (Inr rdr, pos', fx)"
    and "logDate w logfile = (date, None)"
  shows "fst (snd (readLog w logfile pos)) = None
       \<and> usersSent (fst (readLog w logfile pos)) =
           concat (map (lineEvents w date) (readStrings [] (input rdr)))
       \<and> (\<forall>line matches.
             FindStringSubmatch logonre line = Some matches \<and>
             snd (parseSince w (date @ '' '' @ matches ! 1)) \<noteq> None \<longrightarrow>
             lineEvents w date line = [Conch \<lparr>name = matches ! 2, since = zeroTime\<rparr>])
       \<and> (\<forall>line matches.
             FindStringSubmatch logonre line = None \<and>
             FindStringSubmatch logoutre line = Some matches \<and>
             snd (parseSince w (date @ '' '' @ matches ! 1)) \<noteq> None \<longrightarrow>
             lineEvents w date line = [Disch \<lparr>name = matches ! 2, since = zeroTime\<rparr>])"
proof -
  have fx: "usersSent fx = []"
    using getLogReader_effects [OF assms(2)] by auto
  have run: "readLog w logfile pos =
      (Open logfile # fx @ map Send (concat (map (lineEvents w date) (readStrings [] (input rdr)))),
       None,
       if path_Ext logfile \<noteq> gzipext
       then pos' + int (length (concat (readStrings [] (input rdr)))) else pos')"
    using assms by (simp add: readLog_def Let_def)
  have "fst (snd (readLog w logfile pos)) = None"
    by (simp add: run)
  moreover have "usersSent (fst (readLog w logfile pos)) =
      concat (map (lineEvents w date) (readStrings [] (input rdr)))"
    by (simp add: run usersSent_append fx usersSent_lines)
  moreover have "lineEvents w date line = [Conch \<lparr>name = matches ! 2, since = zeroTime\<rparr>]"
    if "FindStringSubmatch logonre line = Some matches"
      and "snd (parseSince w (date @ '' '' @ matches ! 1)) \<noteq> None" for line matches
    using that by (simp add: lineEvents_def parseSince_error)
  moreover have "lineEvents w date line = [Disch \<lparr>name = matches ! 2, since = zeroTime\<rparr>]"
    if "FindStringSubmatch logonre line = None"
      and "FindStringSubmatch logoutre line = Some matches"
      and "snd (parseSince w (date @ '' '' @ matches ! 1)) \<noteq> None" for line matches
    using that by (simp add: lineEvents_def parseSince_error)
  ultimately show ?thesis by blast
qed

lemma bad_matches:
  "FindStringSubmatch logonre
     ''[25:01:15] [Server thread/INFO]: Steve[/127.0.0.1:5000] logged in with entity id 123'' =
     Some [''[25:01:15] [Server thread/INFO]: Steve[/127.0.0.1:5000] logged in with entity id'', ''25:01:15'', ''Steve'']"
  by code_simp

lemma bad_parse: "parseSince hostMST ''2014-03-02 25:01:15'' = (0, Some ''parsing time'')"
  by code_simp

text \<open>
  C2 as stated fails: the hour 25 does not parse, and the login is sent all the same,
  with the zero Time.
\<close>

theorem C2_unparsed_time_counterexample:
  "snd (parseSince hostMST (''2014-03-02'' @ '' '' @ ''25:01:15'')) = Some ''parsing time''
   \<and> lineEvents hostMST ''2014-03-02''
       ''[25:01:15] [Server thread/INFO]: Steve[/127.0.0.1:5000] logged in with entity id 123''
     = [Conch \<lparr>name = ''Steve'', since = 0\<rparr>]"
  using bad_matches bad_parse by (simp add: lineEvents_def)

theorem C2_unparsed_time_sent_as_zero_witness:
  "osOpen hostTwoLines ''logs/latest.log'' = Inr \<lparr>bytes = twoLines, fstatErr = None\<rparr>
   \<and> getLogReader hostTwoLines ''logs/latest.log'' \<lparr>bytes = twoLines, fstatErr = None\<rparr> 0 =
       (Inr \<lparr>input = twoLines, endErr = io_EOF\<rparr>, 0, [Seek ''logs/latest.log'' 0])
   \<and> logDate hostTwoLines ''logs/latest.log'' = (''2014-03-02'', None)
   \<and> fst (snd (readLog hostTwoLines ''logs/latest.log'' 0)) = None
   \<and> usersSent (fst (readLog hostTwoLines ''logs/latest.log'' 0)) =
       [Conch \<lparr>name = ''Steve'', since = 0\<rparr>,
        Disch \<lparr>name = ''Alex'', since = 63529383900000000000\<rparr>]"
proof -
  have a: "osOpen hostTwoLines ''logs/latest.log'' = Inr \<lparr>bytes = twoLines, fstatErr = None\<rparr>"
    by (simp add: hostTwoLines_def twoLines_def)
  have b: "getLogReader hostTwoLines ''logs/latest.log'' \<lparr>bytes = twoLines, fstatErr = None\<rparr> 0 =
       (Inr \<lparr>input = twoLines, endErr = io_EOF\<rparr>, 0, [Seek ''logs/latest.log'' 0])"
    by (simp add: getLogReader_def path_Ext_def gzipext_def)
  have c: "logDate hostTwoLines ''logs/latest.log'' = (''2014-03-02'', None)"
    by code_simp
  have d: "concat (map (lineEvents hostTwoLines ''2014-03-02'') (readStrings [] twoLines)) =
       [Conch \<lparr>name = ''Steve'', since = 0\<rparr>,
        Disch \<lparr>name = ''Alex'', since = 63529383900000000000\<rparr>]"
    by code_simp
  from C2_unparsed_time_sent_as_zero [OF a b c] a b c d show ?thesis
    by simp
qed


subsection \<open>The extension of a joined path\<close>

lemma splitSlash_slash:
  "splitSlash acc (xs @ CHR ''/'' # ys) = splitSlash acc xs @ splitSlash [] ys"
  by (induction xs arbitrary: acc) simp_all

lemma splitSlash_plain: "CHR ''/'' \<notin> set e \<Longrightarrow> splitSlash acc e = [rev acc @ e]"
  by (induction e arbitrary: acc) auto

lemma lastElem_no_slash: "CHR ''/'' \<notin> set (lastElem s)"
  unfolding lastElem_def by (auto dest: set_takeWhileD)

lemma lastElem_decomp:
  "\<exists>pre. pre @ lastElem s = s \<and> (pre = [] \<or> last pre = CHR ''/'')"
proof -
  let ?P = "\<lambda>c. c \<noteq> CHR ''/''"
  let ?pre = "rev (dropWhile ?P (rev s))"
  have "rev (takeWhile ?P (rev s) @ dropWhile ?P (rev s)) = s"
    by (simp only: takeWhile_dropWhile_id rev_rev_ident)
  then have "rev (dropWhile ?P (rev s)) @ rev (takeWhile ?P (rev s)) = s"
    by (simp only: rev_append)
  then have s: "?pre @ lastElem s = s" by (simp only: lastElem_def)
  have "?pre = [] \<or> last ?pre = CHR ''/''"
  proof (cases "dropWhile ?P (rev s)")
    case Nil
    then show ?thesis by simp
  next
    case (Cons c cs)
    then have "\<not> ?P c" using hd_dropWhile [of ?P "rev s"] by auto
    with Cons show ?thesis by (simp add: last_rev)
  qed
  with s show ?thesis by blast
qed

lemma splitSlash_last: "\<exists>xs. splitSlash [] s = xs @ [lastElem s]"
proof -
  from lastElem_decomp [of s] obtain pre where s: "pre @ lastElem s = s"
    and pre: "pre = [] \<or> last pre = CHR ''/''" by blast
  have e: "splitSlash [] (lastElem s) = [lastElem s]"
    using splitSlash_plain [OF lastElem_no_slash, of "[]" s] by simp
  show ?thesis
  proof (cases "pre = []")
    case True
    with s have "lastElem s = s" by simp
    with e have "splitSlash [] s = [] @ [lastElem s]" by simp
    then show ?thesis by (rule exI)
  next
    case False
    with pre have "butlast pre @ [CHR ''/''] = pre"
      using append_butlast_last_id [of pre] by simp
    then have "(butlast pre @ [CHR ''/'']) @ lastElem s = s"
      using s by simp
    then have "butlast pre @ CHR ''/'' # lastElem s = s" by simp
    then have "splitSlash [] s = splitSlash [] (butlast pre @ CHR ''/'' # lastElem s)"
      by simp
    also have "\<dots> = splitSlash [] (butlast pre) @ splitSlash [] (lastElem s)"
      by (rule splitSlash_slash)
    finally have "splitSlash [] s = splitSlash [] (butlast pre) @ [lastElem s]"
      by (simp only: e)
    then show ?thesis by (rule exI)
  qed
qed

lemma lastElem_after_slash: "lastElem (a @ CHR ''/'' # b) = lastElem b"
proof -
  let ?P = "\<lambda>c. c \<noteq> CHR ''/''"
  have "takeWhile ?P (rev b @ CHR ''/'' # rev a) = takeWhile ?P (rev b)"
  proof (cases "\<forall>c \<in> set (rev b). ?P c")
    case True
    then have a1: "takeWhile ?P (rev b @ CHR ''/'' # rev a) = rev b @ takeWhile ?P (CHR ''/'' # rev a)"
      by (intro takeWhile_append2) blast
    have a2: "takeWhile ?P (CHR ''/'' # rev a) = []"
      by simp
    from True have a3: "takeWhile ?P (rev b) = rev b"
      by (simp only: takeWhile_eq_all_conv)
    show ?thesis by (simp only: a1 a2 a3 append_Nil2)
  next
    case False
    then obtain c where "c \<in> set (rev b)" "\<not> ?P c" by blast
    then show ?thesis by (rule takeWhile_append1)
  qed
  then have "takeWhile ?P (rev (a @ CHR ''/'' # b)) = takeWhile ?P (rev b)"
    by simp
  then show ?thesis by (simp only: lastElem_def)
qed

lemma strings_Join_snoc:
  "strings_Join (ys @ [e]) sep = (if ys = [] then e else strings_Join ys sep @ sep @ e)"
  by (induction ys sep rule: strings_Join.induct) auto

lemma clean_keeps_last:
  assumes "p \<noteq> []" and "lastElem p \<noteq> []" and "lastElem p \<noteq> ''.''" and "lastElem p \<noteq> ''..''"
  shows "\<exists>pre. path_Clean p = pre @ lastElem p \<and> (pre = [] \<or> last pre = CHR ''/'')"
proof -
  from splitSlash_last [of p] obtain xs where xs: "splitSlash [] p = xs @ [lastElem p]" by blast
  define r where "r = (hd p = CHR ''/'')"
  define st where "st = foldl (cleanStep r) [] xs"
  have fold: "foldl (cleanStep r) [] (splitSlash [] p) = lastElem p # st"
    using assms by (simp add: xs cleanStep_def st_def)
  define body where "body = (if st = [] then [] else strings_Join (rev st) ''/'' @ ''/'')"
  have j: "strings_Join (rev (lastElem p # st)) ''/'' = body @ lastElem p"
    by (simp add: strings_Join_snoc body_def)
  have b: "body = [] \<or> last body = CHR ''/''"
    by (simp add: body_def)
  have c: "path_Clean p = (if r then CHR ''/'' # body @ lastElem p else body @ lastElem p)"
    using assms(1) unfolding path_Clean_def Let_def r_def [symmetric] fold j
    by simp
  show ?thesis
  proof (cases r)
    case True
    with c have "path_Clean p = (CHR ''/'' # body) @ lastElem p" by simp
    moreover have "last (CHR ''/'' # body) = CHR ''/''" using b by auto
    ultimately show ?thesis by blast
  next
    case False
    with c have "path_Clean p = body @ lastElem p" by simp
    with b show ?thesis by blast
  qed
qed
lemma extScan_elem:
  "CHR ''/'' \<notin> set e \<Longrightarrow>
     extScan (e @ r) acc = (if CHR ''.'' \<in> set e then extScan e acc else extScan r (rev e @ acc))"
  by (induction e arbitrary: acc) auto

lemma extScan_stop: "r = [] \<or> hd r = CHR ''/'' \<Longrightarrow> extScan r acc = []"
  by (cases r) auto

lemma extScan_no_dot: "CHR ''/'' \<notin> set e \<Longrightarrow> CHR ''.'' \<notin> set e \<Longrightarrow> extScan e acc = []"
  by (induction e arbitrary: acc) auto

lemma path_Ext_last:
  assumes "CHR ''/'' \<notin> set e" and "pre = [] \<or> last pre = CHR ''/''"
  shows "path_Ext (pre @ e) = path_Ext e"
proof -
  have stop: "extScan (rev pre) acc = []" for acc
    using assms(2) by (intro extScan_stop) (auto simp: hd_rev)
  have "CHR ''/'' \<notin> set (rev e)" using assms(1) by simp
  from extScan_elem [OF this, of "rev pre" "[]"]
  have "extScan (rev e @ rev pre) [] = (if CHR ''.'' \<in> set e then extScan (rev e) [] else [])"
    by (simp add: stop)
  moreover have "CHR ''.'' \<notin> set e \<Longrightarrow> extScan (rev e) [] = []"
    using assms(1) by (intro extScan_no_dot) simp_all
  ultimately show ?thesis
    by (simp add: path_Ext_def)
qed

lemma path_Ext_lastElem: "path_Ext (lastElem s) = path_Ext s"
proof -
  from lastElem_decomp [of s] obtain pre where s: "pre @ lastElem s = s"
    and pre: "pre = [] \<or> last pre = CHR ''/''" by blast
  have "path_Ext (pre @ lastElem s) = path_Ext (lastElem s)"
    using lastElem_no_slash pre by (rule path_Ext_last)
  then show ?thesis by (simp add: s)
qed

lemma path_Ext_Clean:
  assumes "p \<noteq> []" and "lastElem p \<noteq> []" and "lastElem p \<noteq> ''.''" and "lastElem p \<noteq> ''..''"
  shows "path_Ext (path_Clean p) = path_Ext p"
proof -
  from clean_keeps_last [OF assms] obtain pre where
    c: "path_Clean p = pre @ lastElem p" and pre: "pre = [] \<or> last pre = CHR ''/''" by blast
  have "path_Ext (pre @ lastElem p) = path_Ext (lastElem p)"
    using lastElem_no_slash pre by (rule path_Ext_last)
  then show ?thesis by (simp add: c path_Ext_lastElem)
qed

lemma path_Ext_Join:
  assumes "lastElem f \<noteq> []" and "lastElem f \<noteq> ''.''" and "lastElem f \<noteq> ''..''"
  shows "path_Ext (path_Join d f) = path_Ext f"
proof (cases "d = []")
  case True
  from assms(1) have "f \<noteq> []" by (auto simp: lastElem_def)
  with True assms show ?thesis by (simp add: path_Join_def path_Ext_Clean)
next
  case False
  have l: "lastElem (d @ CHR ''/'' # f) = lastElem f"
    by (rule lastElem_after_slash)
  have "path_Ext (path_Clean (d @ CHR ''/'' # f)) = path_Ext (d @ CHR ''/'' # f)"
    using assms by (intro path_Ext_Clean) (simp_all add: l)
  also have "\<dots> = path_Ext (lastElem (d @ CHR ''/'' # f))"
    by (simp only: path_Ext_lastElem)
  also have "\<dots> = path_Ext f"
    by (simp only: l path_Ext_lastElem)
  finally show ?thesis using False by (simp add: path_Join_def)
qed

lemma gz_lastElem:
  assumes "path_Ext f = gzipext"
  shows "lastElem f \<noteq> [] \<and> lastElem f \<noteq> ''.'' \<and> lastElem f \<noteq> ''..''"
proof -
  have "path_Ext (lastElem f) = ''.gz''"
    using assms by (simp add: path_Ext_lastElem gzipext_def)
  moreover have "path_Ext [] \<noteq> ''.gz''" "path_Ext ''.'' \<noteq> ''.gz''" "path_Ext ''..'' \<noteq> ''.gz''"
    by (simp_all add: path_Ext_def)
  ultimately show ?thesis by metis
qed

lemma path_Ext_Join_gz: "path_Ext f = gzipext \<Longrightarrow> path_Ext (path_Join d f) = gzipext"
  using gz_lastElem [of f] path_Ext_Join [of f d] by simp

lemma path_Ext_Join_latest: "path_Ext (path_Join d ''latest.log'') = ''.log''"
proof -
  have "lastElem ''latest.log'' = ''latest.log''" by (simp add: lastElem_def)
  then have "path_Ext (path_Join d ''latest.log'') = path_Ext ''latest.log''"
    by (intro path_Ext_Join) simp_all
  then show ?thesis by (simp add: path_Ext_def)
qed




subsection \<open>The trace of a run of Mcwho\<close>

lemma opened_append: "opened (a @ b) = opened a @ opened b"
  by (induction a rule: opened.induct) simp_all

lemma gunzipped_append: "gunzipped (a @ b) = gunzipped a @ gunzipped b"
  by (induction a rule: gunzipped.induct) simp_all

lemma positioned_append: "positioned (a @ b) = positioned a @ positioned b"
  by (induction a rule: positioned.induct) simp_all

lemma errorsSent_append: "errorsSent (a @ b) = errorsSent a @ errorsSent b"
  by (induction a rule: errorsSent.induct) simp_all

lemma opened_Send [simp]: "opened (map Send evs) = []"
  by (induction evs) simp_all

lemma gunzipped_Send [simp]: "gunzipped (map Send evs) = []"
  by (induction evs) simp_all

lemma readLog_cases:
  "(\<exists>err. osOpen w p = Inl err \<and> readLog w p pos = ([Open p], Some err, pos))
   \<or> (\<exists>logf r pos' fx evs res pos''. osOpen w p = Inr logf \<and> getLogReader w p logf pos = (r, pos', fx)
        \<and> readLog w p pos = (Open p # fx @ map Send evs, res, pos'')
        \<and> (res = None \<longleftrightarrow> (\<exists>rdr. r = Inr rdr))
        \<and> (\<forall>ev \<in> set evs. \<exists>u. ev = Conch u \<or> ev = Disch u))"
proof (cases "osOpen w p")
  case (Inl err)
  then show ?thesis by (simp add: readLog_def)
next
  case (Inr logf)
  obtain r pos' fx where g: "getLogReader w p logf pos = (r, pos', fx)"
    by (cases "getLogReader w p logf pos") auto
  show ?thesis
  proof (cases r)
    case (Inl err)
    with Inr g have "readLog w p pos = (Open p # fx @ map Send [], Some err, pos')"
      by (simp add: readLog_def)
    with Inr g Inl show ?thesis by fastforce
  next
    case rdr: (Inr rdr)
    obtain date e where d: "logDate w p = (date, e)" by (cases "logDate w p") auto
    define evs where "evs = concat (map (lineEvents w date) (if e = None then readStrings [] (input rdr) else []))"
    have u: "\<forall>ev \<in> set evs. \<exists>u. ev = Conch u \<or> ev = Disch u"
      unfolding evs_def by (auto dest: isUser_lineEvents)
    from Inr g rdr d have "\<exists>pos''. readLog w p pos = (Open p # fx @ map Send evs, None, pos'')"
      by (simp add: readLog_def Let_def evs_def)
    with Inr g rdr u show ?thesis by fastforce
  qed
qed

lemma opened_readLog: "opened (fst (readLog w p pos)) = [p]"
  using readLog_cases [of w p pos]
  by (auto simp: opened_append dest!: getLogReader_effects)


lemma errorsSent_users:
  "\<forall>ev \<in> set evs. \<exists>u. ev = Conch u \<or> ev = Disch u \<Longrightarrow> errorsSent (map Send evs) = []"
  by (induction evs) auto

lemma getLogReader_gz:
  assumes "path_Ext p = gzipext" and "getLogReader w p logf pos = (r, pos', fx)"
  shows "fx = [Gunzip p] \<and> ((\<exists>rdr. r = Inr rdr) \<longleftrightarrow> (\<exists>t. gunzip w (bytes logf) = Inr t))"
  using assms by (auto simp: getLogReader_def split: sum.splits)

lemma getLogReader_plain:
  assumes "path_Ext p \<noteq> gzipext" and "getLogReader w p logf pos = (r, pos', fx)"
  shows "fx = [] \<or> fx = [Seek p pos']"
  using assms by (auto simp: getLogReader_def Let_def split: option.splits)

lemma readLog_shape:
  "\<exists>fx evs res pos''. readLog w p pos = (Open p # fx @ map Send evs, res, pos'')
     \<and> (\<forall>ev \<in> set evs. \<exists>u. ev = Conch u \<or> ev = Disch u)
     \<and> (path_Ext p = gzipext \<longrightarrow> fx = [] \<or> fx = [Gunzip p])
     \<and> (path_Ext p \<noteq> gzipext \<longrightarrow> fx = [] \<or> (\<exists>n. fx = [Seek p n]))"
proof -
  from readLog_cases [of w p pos] consider
    (fail) err where "readLog w p pos = ([Open p], Some err, pos)"
  | (ok) logf r pos' fx evs res pos'' where "getLogReader w p logf pos = (r, pos', fx)"
      "readLog w p pos = (Open p # fx @ map Send evs, res, pos'')"
      "\<forall>ev \<in> set evs. \<exists>u. ev = Conch u \<or> ev = Disch u"
    by blast
  then show ?thesis
  proof cases
    case fail
    then have "readLog w p pos = (Open p # [] @ map Send [], Some err, pos)" by simp
    then show ?thesis by (intro exI conjI) (assumption, auto)
  next
    case ok
    have "path_Ext p = gzipext \<longrightarrow> fx = [] \<or> fx = [Gunzip p]"
      using getLogReader_gz [OF _ ok(1)] by blast
    moreover have "path_Ext p \<noteq> gzipext \<longrightarrow> fx = [] \<or> (\<exists>n. fx = [Seek p n])"
      using getLogReader_plain [OF _ ok(1)] by blast
    ultimately show ?thesis using ok(2,3) by blast
  qed
qed

lemma errorsSent_readLog: "errorsSent (fst (readLog w p pos)) = []"
  using readLog_shape [of w p pos]
  by (cases "path_Ext p = gzipext") (auto simp: errorsSent_append errorsSent_users)

lemma positioned_readLog_gz: "path_Ext p = gzipext \<Longrightarrow> positioned (fst (readLog w p pos)) = []"
  using readLog_shape [of w p pos]
  by (auto simp: positioned_append)

lemma gunzipped_readLog_plain: "path_Ext p \<noteq> gzipext \<Longrightarrow> gunzipped (fst (readLog w p pos)) = []"
  using readLog_shape [of w p pos]
  by (auto simp: gunzipped_append)

lemma positioned_readLog_plain:
  "path_Ext p \<noteq> gzipext \<Longrightarrow> fst ` set (positioned (fst (readLog w p pos))) \<subseteq> {p}"
  using readLog_shape [of w p pos]
  by (auto simp: positioned_append)

lemma gunzipped_readLog_gz:
  "path_Ext p = gzipext \<Longrightarrow>
     gunzipped (fst (readLog w p pos)) = [] \<or> gunzipped (fst (readLog w p pos)) = [p]"
  using readLog_shape [of w p pos]
  by (auto simp: gunzipped_append)

lemma readLog_archiveOk:
  assumes "path_Ext p = gzipext" and "archiveOk w p"
  shows "gunzipped (fst (readLog w p pos)) = [p] \<and> fst (snd (readLog w p pos)) = None"
proof -
  from assms(2) obtain logf t where o: "osOpen w p = Inr logf" and g: "gunzip w (bytes logf) = Inr t"
    by (auto simp: archiveOk_def split: sum.splits)
  from readLog_cases [of w p pos] o obtain r pos' fx evs res pos'' where
    gl: "getLogReader w p logf pos = (r, pos', fx)"
    and rl: "readLog w p pos = (Open p # fx @ map Send evs, res, pos'')"
    and res: "res = None \<longleftrightarrow> (\<exists>rdr. r = Inr rdr)"
    by auto
  from getLogReader_gz [OF assms(1) gl] g have "fx = [Gunzip p]" "\<exists>rdr. r = Inr rdr"
    by auto
  with rl res show ?thesis by (simp add: gunzipped_append)
qed


lemma readLog_gz_ok:
  assumes "path_Ext p = gzipext" and "readLog w p pos = (fx, None, pos')"
  shows "gunzipped fx = [p]"
proof -
  from readLog_cases [of w p pos] assms(2) obtain logf r pos1 fx1 evs where
    gl: "getLogReader w p logf pos = (r, pos1, fx1)"
    and rl: "fx = Open p # fx1 @ map Send evs"
    and res: "\<exists>rdr. r = Inr rdr"
    by auto
  from getLogReader_gz [OF assms(1) gl] have "fx1 = [Gunzip p]" by simp
  with rl show ?thesis by (simp add: gunzipped_append)
qed




lemma uptoFirstFail_takeWhile:
  "uptoFirstFail ok xs = takeWhile ok xs @ take 1 (dropWhile ok xs)"
  by (induction xs) simp_all


lemma take_Cons_ex: "\<exists>k. x # take n xs = take k (x # xs)"
  by (rule exI [of _ "Suc n"]) simp

lemma backfill_trace:
  "\<exists>fx res pos'. backfill w d files pos = (fx, res, pos')
     \<and> (\<exists>k. opened fx = take k (archives d files))
     \<and> (res = None \<longrightarrow> opened fx = archives d files)
     \<and> (\<exists>k. gunzipped fx = take k (archives d files))
     \<and> ((\<forall>f \<in> set files. isArchive f \<longrightarrow> archiveOk w (path_Join d f)) \<longrightarrow>
          gunzipped fx = archives d files \<and> res = None)
     \<and> positioned fx = []
     \<and> (res = None \<longrightarrow> errorsSent fx = [])
     \<and> (\<forall>err. res = Some err \<longrightarrow> (\<exists>fx'. fx = fx' @ [Send (Errch err)]))"
proof (induction files arbitrary: pos)
  case Nil
  show ?case by (simp add: archives_def)
next
  case (Cons f fs)
  show ?case
  proof (cases "isArchive f")
    case False
    then have b: "backfill w d (f # fs) pos = backfill w d fs pos"
      by (simp add: isArchive_def)
    from False have a: "archives d (f # fs) = archives d fs"
      by (simp add: archives_def)
    from Cons.IH [of pos] show ?thesis
      unfolding b a using False by auto
  next
    case True
    define p where "p = path_Join d f"
    have ext: "path_Ext p = gzipext"
      using True by (simp add: p_def isArchive_def path_Ext_Join_gz)
    have a: "archives d (f # fs) = p # archives d fs"
      using True by (simp add: archives_def p_def)
    obtain fx1 r1 pos1 where rl: "readLog w p pos = (fx1, r1, pos1)"
      by (cases "readLog w p pos") auto
    have o1: "opened fx1 = [p]"
      using opened_readLog [of w p pos] by (simp add: rl)
    have e1: "errorsSent fx1 = []"
      using errorsSent_readLog [of w p pos] by (simp add: rl)
    have s1: "positioned fx1 = []"
      using positioned_readLog_gz [OF ext, of w pos] by (simp add: rl)
    have g1: "gunzipped fx1 = [] \<or> gunzipped fx1 = [p]"
      using gunzipped_readLog_gz [OF ext, of w pos] by (simp add: rl)
    show ?thesis
    proof (cases r1)
      case (Some err)
      have b: "backfill w d (f # fs) pos = (fx1 @ [Send (Errch err)], Some err, pos1)"
        using True rl Some by (simp add: isArchive_def p_def)
      have notok: "\<not> archiveOk w p"
        using readLog_archiveOk [OF ext, of w pos] rl Some by auto
      have "\<exists>k. opened (fx1 @ [Send (Errch err)]) = take k (p # archives d fs)"
        by (rule exI [of _ 1]) (simp add: opened_append o1)
      moreover have "\<exists>k. gunzipped (fx1 @ [Send (Errch err)]) = take k (p # archives d fs)"
      proof (cases "gunzipped fx1 = []")
        case True
        then show ?thesis by (intro exI [of _ 0]) (simp add: gunzipped_append)
      next
        case False
        with g1 show ?thesis by (intro exI [of _ 1]) (simp add: gunzipped_append)
      qed
      moreover have "positioned (fx1 @ [Send (Errch err)]) = []"
        by (simp add: positioned_append s1)
      ultimately show ?thesis
        unfolding b a using notok \<open>isArchive f\<close> by (auto simp: p_def)
    next
      case None
      from Cons.IH [of pos1] obtain fx2 r2 pos2 where
        b2: "backfill w d fs pos1 = (fx2, r2, pos2)"
        and o2: "\<exists>k. opened fx2 = take k (archives d fs)"
        and o2': "r2 = None \<longrightarrow> opened fx2 = archives d fs"
        and g2: "\<exists>k. gunzipped fx2 = take k (archives d fs)"
        and g2': "(\<forall>f \<in> set fs. isArchive f \<longrightarrow> archiveOk w (path_Join d f)) \<longrightarrow>
            gunzipped fx2 = archives d fs \<and> r2 = None"
        and s2: "positioned fx2 = []"
        and e2: "r2 = None \<longrightarrow> errorsSent fx2 = []"
        and l2: "\<forall>err. r2 = Some err \<longrightarrow> (\<exists>fx'. fx2 = fx' @ [Send (Errch err)])"
        by blast
      have b: "backfill w d (f # fs) pos = (fx1 @ fx2, r2, pos2)"
        using True rl None b2 by (simp add: isArchive_def p_def)
      have g1': "gunzipped fx1 = [p]"
        using readLog_gz_ok [OF ext] rl None by simp
      have "\<exists>k. opened (fx1 @ fx2) = take k (p # archives d fs)"
        using o2 take_Cons_ex [of p _ "archives d fs"] by (auto simp: opened_append o1)
      moreover have "r2 = None \<longrightarrow> opened (fx1 @ fx2) = p # archives d fs"
        using o2' by (simp add: opened_append o1)
      moreover have "\<exists>k. gunzipped (fx1 @ fx2) = take k (p # archives d fs)"
        using g2 take_Cons_ex [of p _ "archives d fs"] by (auto simp: gunzipped_append g1')
      moreover have "(\<forall>f \<in> set (f # fs). isArchive f \<longrightarrow> archiveOk w (path_Join d f)) \<longrightarrow>
            gunzipped (fx1 @ fx2) = p # archives d fs \<and> r2 = None"
        using g2' by (simp add: gunzipped_append g1')
      moreover have "positioned (fx1 @ fx2) = []"
        by (simp add: positioned_append s1 s2)
      moreover have "r2 = None \<longrightarrow> errorsSent (fx1 @ fx2) = []"
        using e2 by (simp add: errorsSent_append e1)
      moreover have "\<forall>err. r2 = Some err \<longrightarrow> (\<exists>fx'. fx1 @ fx2 = fx' @ [Send (Errch err)])"
      proof (intro allI impI)
        fix err assume "r2 = Some err"
        with l2 obtain fx' where "fx2 = fx' @ [Send (Errch err)]" by blast
        then have "fx1 @ fx2 = (fx1 @ fx') @ [Send (Errch err)]" by simp
        then show "\<exists>fx'. fx1 @ fx2 = fx' @ [Send (Errch err)]" by (rule exI)
      qed
      ultimately show ?thesis
        unfolding b a by blast
    qed
  qed
qed


lemma backfill_facts:
  assumes "backfill w d files pos = (fx, res, p)"
  shows "\<exists>k. opened fx = take k (archives d files)"
    and "res = None \<Longrightarrow> opened fx = archives d files"
    and "\<exists>k. gunzipped fx = take k (archives d files)"
    and "(\<forall>f \<in> set files. isArchive f \<longrightarrow> archiveOk w (path_Join d f)) \<Longrightarrow>
          gunzipped fx = archives d files \<and> res = None"
    and "positioned fx = []"
    and "res = None \<Longrightarrow> errorsSent fx = []"
    and "res = Some err \<Longrightarrow> \<exists>fx'. fx = fx' @ [Send (Errch err)]"
proof -
  from backfill_trace [of w d files pos] obtain fx0 res0 p0 where
    b: "backfill w d files pos = (fx0, res0, p0)"
    and t: "\<exists>k. opened fx0 = take k (archives d files)"
      "res0 = None \<longrightarrow> opened fx0 = archives d files"
      "\<exists>k. gunzipped fx0 = take k (archives d files)"
      "(\<forall>f \<in> set files. isArchive f \<longrightarrow> archiveOk w (path_Join d f)) \<longrightarrow>
          gunzipped fx0 = archives d files \<and> res0 = None"
      "positioned fx0 = []"
      "res0 = None \<longrightarrow> errorsSent fx0 = []"
      "\<forall>err. res0 = Some err \<longrightarrow> (\<exists>fx'. fx0 = fx' @ [Send (Errch err)])"
    by blast
  from b assms have e: "fx0 = fx" "res0 = res" by simp_all
  from t(1) show "\<exists>k. opened fx = take k (archives d files)" by (simp only: e)
  from t(2) show "res = None \<Longrightarrow> opened fx = archives d files" by (simp only: e)
  from t(3) show "\<exists>k. gunzipped fx = take k (archives d files)" by (simp only: e)
  from t(4) show "(\<forall>f \<in> set files. isArchive f \<longrightarrow> archiveOk w (path_Join d f)) \<Longrightarrow>
          gunzipped fx = archives d files \<and> res = None" by (simp only: e)
  from t(5) show "positioned fx = []" by (simp only: e)
  from t(6) show "res = None \<Longrightarrow> errorsSent fx = []" by (simp only: e)
  from t(7) show "res = Some err \<Longrightarrow> \<exists>fx'. fx = fx' @ [Send (Errch err)]" by (simp only: e)
qed



lemma liveLoop_trace:
  assumes "path_Ext L \<noteq> gzipext"
  shows "(\<exists>n. opened (effects (liveLoop w L steps pos)) = replicate n L \<and> 0 < n
            \<and> (status (liveLoop w L steps pos) = Waiting \<longrightarrow> n = Suc (length steps)))
       \<and> gunzipped (effects (liveLoop w L steps pos)) = []
       \<and> fst ` set (positioned (effects (liveLoop w L steps pos))) \<subseteq> {L}
       \<and> (status (liveLoop w L steps pos) = Returned \<longrightarrow>
            (\<exists>fx err. effects (liveLoop w L steps pos) = fx @ [Send (Errch err)]))
       \<and> (\<forall>e. status (liveLoop w L steps pos) \<noteq> Exited e)"
proof (induction steps arbitrary: w pos)
  case Nil
  obtain fx1 r1 pos1 where rl: "readLog w L pos = (fx1, r1, pos1)"
    by (cases "readLog w L pos") auto
  have o1: "opened fx1 = [L]"
    using opened_readLog [of w L pos] by (simp add: rl)
  have g1: "gunzipped fx1 = []"
    using gunzipped_readLog_plain [OF assms, of w pos] by (simp add: rl)
  have s1: "fst ` set (positioned fx1) \<subseteq> {L}"
    using positioned_readLog_plain [OF assms, of w pos] by (simp add: rl)
  show ?case
  proof (cases r1)
    case None
    then have l: "liveLoop w L [] pos = \<lparr>effects = fx1, status = Waiting, cursor = pos1\<rparr>"
      by (simp add: rl)
    have "\<exists>n. opened fx1 = replicate n L \<and> 0 < n \<and> n = Suc 0"
      by (simp add: o1)
    then show ?thesis unfolding l using g1 s1 by auto
  next
    case (Some err)
    then have l: "liveLoop w L [] pos =
        \<lparr>effects = fx1 @ [Send (Errch err)], status = Returned, cursor = pos1\<rparr>"
      by (simp add: rl)
    have "\<exists>n. opened (fx1 @ [Send (Errch err)]) = replicate n L \<and> 0 < n"
      by (rule exI [of _ 1]) (simp add: opened_append o1)
    then show ?thesis unfolding l using g1 s1
      by (auto simp: gunzipped_append positioned_append)
  qed
next
  case (Cons step rest)
  obtain ev w' where step: "step = (ev, w')" by (cases step) auto
  obtain fx1 r1 pos1 where rl: "readLog w L pos = (fx1, r1, pos1)"
    by (cases "readLog w L pos") auto
  have o1: "opened fx1 = [L]"
    using opened_readLog [of w L pos] by (simp add: rl)
  have g1: "gunzipped fx1 = []"
    using gunzipped_readLog_plain [OF assms, of w pos] by (simp add: rl)
  have s1: "fst ` set (positioned fx1) \<subseteq> {L}"
    using positioned_readLog_plain [OF assms, of w pos] by (simp add: rl)
  show ?case
  proof (cases r1)
    case (Some err)
    then have l: "liveLoop w L (step # rest) pos =
        \<lparr>effects = fx1 @ [Send (Errch err)], status = Returned, cursor = pos1\<rparr>"
      by (simp add: rl step)
    have "\<exists>n. opened (fx1 @ [Send (Errch err)]) = replicate n L \<and> 0 < n"
      by (rule exI [of _ 1]) (simp add: opened_append o1)
    then show ?thesis unfolding l using g1 s1
      by (auto simp: gunzipped_append positioned_append)
  next
    case None
    define fxa where "fxa = (case ev of FsEvent \<Rightarrow> fx1 | FsError err \<Rightarrow> fx1 @ [Send (Errch err)])"
    define out where "out = liveLoop w' L rest pos1"
    have l: "liveLoop w L (step # rest) pos = out\<lparr>effects := fxa @ effects out\<rparr>"
      using None by (simp add: rl step fxa_def out_def Let_def)
    have oa: "opened fxa = [L]"
      by (cases ev) (simp_all add: fxa_def opened_append o1)
    have ga: "gunzipped fxa = []"
      by (cases ev) (simp_all add: fxa_def gunzipped_append g1)
    have sa: "fst ` set (positioned fxa) \<subseteq> {L}"
      using s1 by (cases ev) (simp_all add: fxa_def positioned_append)
    from Cons.IH [of w' pos1] obtain n where
      n: "opened (effects out) = replicate n L" "0 < n"
        "status out = Waiting \<longrightarrow> n = Suc (length rest)"
      and g: "gunzipped (effects out) = []"
      and s: "fst ` set (positioned (effects out)) \<subseteq> {L}"
      and r: "status out = Returned \<longrightarrow> (\<exists>fx err. effects out = fx @ [Send (Errch err)])"
      and x: "\<forall>e. status out \<noteq> Exited e"
      unfolding out_def by blast
    have "opened (fxa @ effects out) = replicate (Suc n) L"
      by (simp add: opened_append oa n(1))
    then have "\<exists>m. opened (fxa @ effects out) = replicate m L \<and> 0 < m
        \<and> (status out = Waiting \<longrightarrow> m = Suc (length (step # rest)))"
      using n(3) by (intro exI [of _ "Suc n"]) simp
    moreover have "gunzipped (fxa @ effects out) = []"
      by (simp add: gunzipped_append ga g)
    moreover have "fst ` set (positioned (fxa @ effects out)) \<subseteq> {L}"
      using sa s by (auto simp: positioned_append)
    moreover have "status out = Returned \<longrightarrow> (\<exists>fx err. fxa @ effects out = fx @ [Send (Errch err)])"
    proof
      assume "status out = Returned"
      with r obtain fx err where "effects out = fx @ [Send (Errch err)]" by blast
      then have "fxa @ effects out = (fxa @ fx) @ [Send (Errch err)]" by simp
      then show "\<exists>fx err. fxa @ effects out = fx @ [Send (Errch err)]" by blast
    qed
    ultimately show ?thesis unfolding l using x by simp
  qed
qed



lemma path_Ext_live: "path_Ext (path_Join d ''latest.log'') \<noteq> gzipext"
  by (simp add: path_Ext_Join_latest gzipext_def)

lemma Mcwho_run:
  assumes "watchErr w (path_Join d ''latest.log'') = None" and "dirNames w d = Inr names"
  shows "\<exists>fx res p. backfill w d (sort names) pos = (fx, res, p)
     \<and> (res \<noteq> None \<longrightarrow> Mcwho w d steps pos = \<lparr>effects = fx, status = Returned, cursor = p\<rparr>)
     \<and> (res = None \<longrightarrow> Mcwho w d steps pos =
           (liveLoop w (path_Join d ''latest.log'') steps p)
             \<lparr>effects := fx @ effects (liveLoop w (path_Join d ''latest.log'') steps p)\<rparr>)"
proof -
  obtain fx res p where b: "backfill w d (sort names) pos = (fx, res, p)"
    by (cases "backfill w d (sort names) pos") auto
  show ?thesis
    using assms b
    by (cases res) (simp_all add: Mcwho_def setupWatcher_def ioutil_ReadDir_def Let_def)
qed







subsection \<open>Which files are read\<close>






subsection \<open>Failures and the error channel\<close>

lemma Mcwho_watch_fails:
  "watchErr w (path_Join logPath ''latest.log'') = Some err \<Longrightarrow>
     Mcwho w logPath steps pos = \<lparr>effects = [], status = Exited err, cursor = pos\<rparr>"
  by (simp add: Mcwho_def setupWatcher_def)

text \<open>Once the watch is set up, the run never ends in \<^verbatim>\<open>log.Fatal\<close>, and when it returns
  the last thing it did was to send an error on \<^verbatim>\<open>errch\<close>.\<close>

lemma Mcwho_returns_after_error:
  assumes "watchErr w (path_Join logPath ''latest.log'') = None"
  shows "(status (Mcwho w logPath steps pos) = Returned \<longrightarrow>
           (\<exists>fx err. effects (Mcwho w logPath steps pos) = fx @ [Send (Errch err)]))
       \<and> (\<forall>e. status (Mcwho w logPath steps pos) \<noteq> Exited e)"
proof (cases "dirNames w logPath")
  case (Inl err)
  with assms have "Mcwho w logPath steps pos =
      \<lparr>effects = [] @ [Send (Errch err)], status = Returned, cursor = pos\<rparr>"
    by (simp add: Mcwho_def setupWatcher_def ioutil_ReadDir_def)
  then show ?thesis by (metis outcome.select_convs(1,2) status.distinct(1))
next
  case (Inr names)
  let ?L = "path_Join logPath ''latest.log''"
  let ?M = "Mcwho w logPath steps pos"
  from Mcwho_run [OF assms Inr, of pos steps] obtain fx res p where
    b: "backfill w logPath (sort names) pos = (fx, res, p)"
    and stop: "res \<noteq> None \<longrightarrow> ?M = \<lparr>effects = fx, status = Returned, cursor = p\<rparr>"
    and live: "res = None \<longrightarrow> ?M =
        (liveLoop w ?L steps p)\<lparr>effects := fx @ effects (liveLoop w ?L steps p)\<rparr>"
    by blast
  show ?thesis
  proof (cases res)
    case (Some err)
    from backfill_facts(7) [OF b Some] obtain fx' where "fx = fx' @ [Send (Errch err)]" by blast
    with Some stop show ?thesis by auto
  next
    case None
    define out where "out = liveLoop w ?L steps p"
    from None live have m: "?M = out\<lparr>effects := fx @ effects out\<rparr>"
      by (simp add: out_def)
    from liveLoop_trace [OF path_Ext_live [of logPath], of w steps p] have
      r: "status out = Returned \<longrightarrow> (\<exists>fx err. effects out = fx @ [Send (Errch err)])"
      and x: "\<forall>e. status out \<noteq> Exited e"
      unfolding out_def by blast+
    have "status ?M = Returned \<longrightarrow> (\<exists>fx err. effects ?M = fx @ [Send (Errch err)])"
    proof
      assume "status ?M = Returned"
      then have "status out = Returned" by (simp add: m)
      with r obtain fx' err where "effects out = fx' @ [Send (Errch err)]" by blast
      then have "effects ?M = (fx @ fx') @ [Send (Errch err)]" by (simp add: m)
      then show "\<exists>fx err. effects ?M = fx @ [Send (Errch err)]" by blast
    qed
    moreover have "\<forall>e. status ?M \<noteq> Exited e"
      using x by (simp add: m)
    ultimately show ?thesis by blast
  qed
qed

text \<open>
  C3. When the watch on \<^verbatim>\<open>latest.log\<close> cannot be set up, \<^verbatim>\<open>setupWatcher\<close> ends the
  process in \<^verbatim>\<open>log.Fatal\<close>: nothing is sent on \<^verbatim>\<open>errch\<close> and \<^verbatim>\<open>Mcwho\<close> does not return.
\<close>

theorem C3_watch_failure_bypasses_errch:
  "Mcwho hostNoWatch logPath steps pos =
     \<lparr>effects = [], status = Exited ''no such file or directory'', cursor = pos\<rparr>"
  by (simp add: Mcwho_def setupWatcher_def hostNoWatch_def)

text \<open>A gzip stream that breaks after its header ends the loop of \<^verbatim>\<open>readLog\<close> like the
  end of the file: \<^verbatim>\<open>err\<close> is set to \<^verbatim>\<open>nil\<close>, no error is sent and the run goes on.\<close>

lemma damaged_archive_swallowed:
  "Mcwho hostDamagedArchive ''logs/'' [] 0 =
     \<lparr>effects =
        [Open ''logs/2014-01-01-1.log.gz'', Gunzip ''logs/2014-01-01-1.log.gz'',
         Send (Conch \<lparr>name = ''Steve'', since = 63524188800000000000\<rparr>),
         Open ''logs/latest.log'', Seek ''logs/latest.log'' 0],
      status = Waiting, cursor = 15\<rparr>"
  by code_simp


end
